theory Spec2Isabelle
  imports Main
begin

section \<open>A shallow embedding of the spreadsheet of \<^verbatim>\<open>src/main.go\<close>\<close>

text \<open>
  The program is one Go file: a grid of cells, \<^verbatim>\<open>SetCellValue\<close>, \<^verbatim>\<open>GetCellValue\<close> and the
  helpers that parse a formula, maintain the dependents maps and evaluate a formula.
  Conventions of the embedding:
  \<^item> a Go \<^verbatim>\<open>string\<close> is a sequence of bytes, here a \<^typ>\<open>string\<close> (a list of 8-bit characters);
  \<^item> a Go \<^verbatim>\<open>int\<close> is 64 bits wide; it is an \<^typ>\<open>int\<close> here and every addition and
    subtraction of the source is followed by \<open>wrap64\<close>;
  \<^item> a function that panics (an index out of range, a slice bound out of range, a negative
    length given to \<^verbatim>\<open>make\<close>) or never returns yields \<open>Inl\<close> of an \<open>abort\<close>; a function
    that returns yields \<open>Inr\<close>, and an \<^verbatim>\<open>error\<close> it returns is an \<open>error option\<close> beside
    the state it leaves;
  \<^item> the methods mutate the sheet through a pointer; here they take the sheet and return
    the sheet they leave. Every cell, value and formula of the source is allocated afresh
    (\<^verbatim>\<open>new(Cell)\<close>, \<^verbatim>\<open>&value\<close>, \<^verbatim>\<open>&valueInt\<close>), so no two cells share storage;
  \<^item> \<^verbatim>\<open>fmt.Println\<close> only writes to the standard output, which is not modelled;
  \<^item> \<^verbatim>\<open>make\<close> panics on a length it refuses (negative, or too large for the runtime);
    running out of the machine's memory on a length it accepts is a fatal error that
    depends on the machine and is not modelled.
\<close>

subsection \<open>Integers, aborts and errors\<close>

definition wrap64 :: "int \<Rightarrow> int" where
  "wrap64 x = (x + 2 ^ 63) mod 2 ^ 64 - 2 ^ 63"

datatype abort =
    IndexOutOfRange
  | SliceBoundsOutOfRange
  | MakeSliceLenOutOfRange
  | NoReturn

type_synonym 'a result = "abort + 'a"

text \<open>The four messages the source gives to \<^verbatim>\<open>errors.New\<close>.\<close>

datatype error =
    InvalidColNumber
  | InvalidRowNumber
  | RowOutOfBounds
  | ColumnOutOfBounds

subsection \<open>The library functions the source calls\<close>

text \<open>
  \<^verbatim>\<open>strconv.Atoi\<close>: an optional sign \<^verbatim>\<open>+\<close> or \<^verbatim>\<open>-\<close>, then one or more decimal digits and
  nothing else; a value outside the 64-bit range is an error.
\<close>

definition isDigit :: "char \<Rightarrow> bool" where
  "isDigit c = (48 \<le> (of_char c :: nat) \<and> (of_char c :: nat) \<le> 57)"

definition digitVal :: "char \<Rightarrow> int" where
  "digitVal c = int (of_char c) - 48"

definition decimal :: "string \<Rightarrow> int" where
  "decimal ds = foldl (\<lambda>n c. n * 10 + digitVal c) 0 ds"

definition Atoi :: "string \<Rightarrow> int option" where
  "Atoi s =
     (case s of
        [] \<Rightarrow> None
      | c # r \<Rightarrow>
          (let ds = (if c = CHR ''-'' \<or> c = CHR ''+'' then r else s);
               n = (if c = CHR ''-'' then - decimal ds else decimal ds)
           in if ds = [] \<or> \<not> list_all isDigit ds then None
              else if - (2 ^ 63) \<le> n \<and> n < 2 ^ 63 then Some n
              else None))"

text \<open>
  \<^verbatim>\<open>len(strings.TrimSpace(value)) == 0\<close> holds when \<^verbatim>\<open>value\<close> is a sequence of white
  space code points in UTF-8: the six of ASCII, U+0085 and U+00A0 (two bytes), and
  U+1680, U+2000 to U+200A, U+2028, U+2029, U+202F, U+205F and U+3000 (three bytes).
\<close>

definition asciiSpace :: "char \<Rightarrow> bool" where
  "asciiSpace c = ((of_char c :: nat) \<in> {9, 10, 11, 12, 13, 32})"

definition space2 :: "char \<Rightarrow> char \<Rightarrow> bool" where
  "space2 a b = ((of_char a :: nat) = 194 \<and> (of_char b :: nat) \<in> {133, 160})"

definition space3 :: "char \<Rightarrow> char \<Rightarrow> char \<Rightarrow> bool" where
  "space3 a b c =
     (let x = (of_char a :: nat); y = (of_char b :: nat); z = (of_char c :: nat)
      in (x = 225 \<and> y = 154 \<and> z = 128)
       \<or> (x = 226 \<and> y = 128 \<and> ((128 \<le> z \<and> z \<le> 138) \<or> z \<in> {168, 169, 175}))
       \<or> (x = 226 \<and> y = 129 \<and> z = 159)
       \<or> (x = 227 \<and> y = 128 \<and> z = 128))"

fun allSpace :: "string \<Rightarrow> bool" where
  "allSpace [] = True"
| "allSpace [a] = asciiSpace a"
| "allSpace [a, b] = (if asciiSpace a then allSpace [b] else space2 a b)"
| "allSpace (a # b # c # cs) =
     (if asciiSpace a then allSpace (b # c # cs)
      else if space2 a b then allSpace (c # cs)
      else space3 a b c \<and> allSpace cs)"

text \<open>\<^verbatim>\<open>strings.Split(s, ":")\<close>: the pieces of \<open>s\<close> between the separators, in order.\<close>

fun Split :: "string \<Rightarrow> char \<Rightarrow> string list" where
  "Split [] sep = [[]]"
| "Split (c # cs) sep =
     (if c = sep then [] # Split cs sep
      else (case Split cs sep of [] \<Rightarrow> [[c]] | x # xs \<Rightarrow> (c # x) # xs))"

subsection \<open>The data\<close>

text \<open>
  \<^verbatim>\<open>dependentCells\<close> is a \<^verbatim>\<open>map[string]interface{}\<close> whose values are never read: it
  is the set of its keys. \<^verbatim>\<open>value\<close> is a pointer that is never nil after the sheet is built.
\<close>

record Cell =
  dependentCells :: "string set"
  "value" :: int
  formula :: "string option"

record SpreadSheet =
  cells :: "Cell list list"

record CellId =
  row :: int
  col :: int
  sign :: string
  val :: "int option"

text \<open>\<^verbatim>\<open>sheet.cells[r][c]\<close>, read and written; Go panics on an index out of range.\<close>

definition cellAt :: "SpreadSheet \<Rightarrow> int \<Rightarrow> int \<Rightarrow> Cell result" where
  "cellAt sheet r c =
     (if 0 \<le> r \<and> r < int (length (cells sheet))
      then (if 0 \<le> c \<and> c < int (length (cells sheet ! nat r))
            then Inr (cells sheet ! nat r ! nat c)
            else Inl IndexOutOfRange)
      else Inl IndexOutOfRange)"

definition setCell :: "SpreadSheet \<Rightarrow> int \<Rightarrow> int \<Rightarrow> Cell \<Rightarrow> SpreadSheet" where
  "setCell sheet r c x =
     sheet\<lparr>cells := (cells sheet)[nat r := (cells sheet ! nat r)[nat c := x]]\<rparr>"

definition updCell :: "SpreadSheet \<Rightarrow> int \<Rightarrow> int \<Rightarrow> (Cell \<Rightarrow> Cell) \<Rightarrow> SpreadSheet result" where
  "updCell sheet r c f =
     (case cellAt sheet r c of
        Inl a \<Rightarrow> Inl a
      | Inr x \<Rightarrow> Inr (setCell sheet r c (f x)))"

subsection \<open>CreateSpreadSheet\<close>

text \<open>
  The inner loop fills one row with fresh cells, the outer loop builds the rows.
  \<^verbatim>\<open>make\<close> panics (\<^verbatim>\<open>makeslice: len out of range\<close>) when the length is negative or when
  the length times the size of an element overflows or exceeds the runtime's
  \<^verbatim>\<open>maxAlloc\<close>, which is \<open>2 ^ 48\<close> bytes on the 64-bit platforms. An element of
  \<^verbatim>\<open>[][]*Cell\<close> is a slice header of 24 bytes, an element of \<^verbatim>\<open>[]*Cell\<close> a pointer of
  8 bytes. The inner \<^verbatim>\<open>make\<close> runs only when there is a row, and after the clamp its
  length is at most 26.
\<close>

definition maxAlloc :: int where
  "maxAlloc = 2 ^ 48"

definition newCell :: Cell where
  "newCell = \<lparr>dependentCells = {}, value = 0, formula = None\<rparr>"

primrec newRow :: "nat \<Rightarrow> Cell list" where
  "newRow 0 = []"
| "newRow (Suc j) = newRow j @ [newCell]"

primrec newRows :: "nat \<Rightarrow> nat \<Rightarrow> Cell list list" where
  "newRows 0 n = []"
| "newRows (Suc i) n = newRows i n @ [newRow n]"

definition CreateSpreadSheet :: "int \<Rightarrow> int \<Rightarrow> SpreadSheet result" where
  "CreateSpreadSheet numRows numCols =
     (if numRows < 0 \<or> 24 * numRows > maxAlloc then Inl MakeSliceLenOutOfRange
      else (let numCols = (if numCols > 26 then 26 else numCols)
            in if 0 < numRows \<and> (numCols < 0 \<or> 8 * numCols > maxAlloc)
               then Inl MakeSliceLenOutOfRange
               else Inr \<lparr>cells = newRows (nat numRows) (nat numCols)\<rparr>))"

subsection \<open>getCellRowCol\<close>

text \<open>
  \<^verbatim>\<open>cellId[0]\<close> panics on the empty string. \<^verbatim>\<open>cellId[0]-'A'\<close> is a subtraction of
  bytes, so it wraps modulo 256 and \<^verbatim>\<open>col < 0\<close> never holds. The row is the integer
  the rest of the string spells, minus one.
\<close>

definition getCellRowCol :: "string \<Rightarrow> (int \<times> int \<times> error option) result" where
  "getCellRowCol cellId =
     (case cellId of
        [] \<Rightarrow> Inl IndexOutOfRange
      | c # rest \<Rightarrow>
          (let col = int ((of_char c + 256 - 65) mod 256)
           in if col < 0 \<or> col \<ge> 26 then Inr (- 1, - 1, Some InvalidColNumber)
              else (case Atoi rest of
                      None \<Rightarrow> Inr (- 1, - 1, Some InvalidRowNumber)
                    | Some r \<Rightarrow> Inr (wrap64 (r - 1), col, None))))"

subsection \<open>The formula parser\<close>

text \<open>
  \<^verbatim>\<open>getCellIdsFromRange\<close>. A token without a colon is one term: a literal (its row and
  column stay 0, the zero value of the struct) or a cell, whatever \<^verbatim>\<open>getCellRowCol\<close>
  returned for it, its error dropped. A token with a colon is split, its first two
  pieces are resolved, errors dropped, and the two loops list the rectangle by rows.
  The loop \<^verbatim>\<open>for r := topRow; r <= bottomRow; r++\<close> never ends when \<^verbatim>\<open>bottomRow\<close> is the
  largest integer, which only a row text spelling \<open>- 2 ^ 63\<close> yields.
\<close>

definition rectangle :: "int \<Rightarrow> int \<Rightarrow> int \<Rightarrow> int \<Rightarrow> string \<Rightarrow> CellId list" where
  "rectangle topRow leftCol bottomRow rightCol sg =
     concat (map (\<lambda>r. map (\<lambda>c. \<lparr>row = r, col = c, sign = sg, val = None\<rparr>) [leftCol..rightCol])
                 [topRow..bottomRow])"

definition getCellIdsFromRange :: "string \<Rightarrow> string \<Rightarrow> CellId list result" where
  "getCellIdsFromRange rangeStr sg =
     (if CHR '':'' \<notin> set rangeStr
      then (case Atoi rangeStr of
              Some v \<Rightarrow> Inr [\<lparr>row = 0, col = 0, sign = sg, val = Some v\<rparr>]
            | None \<Rightarrow>
                (case getCellRowCol rangeStr of
                   Inl a \<Rightarrow> Inl a
                 | Inr (r, c, _) \<Rightarrow> Inr [\<lparr>row = r, col = c, sign = sg, val = None\<rparr>]))
      else (let pieces = Split rangeStr CHR '':''
            in case getCellRowCol (pieces ! 0) of
                 Inl a \<Rightarrow> Inl a
               | Inr (topRow, leftCol, _) \<Rightarrow>
                   (case getCellRowCol (pieces ! 1) of
                      Inl a \<Rightarrow> Inl a
                    | Inr (bottomRow, rightCol, _) \<Rightarrow>
                        if bottomRow = 2 ^ 63 - 1 then Inl NoReturn
                        else Inr (rectangle topRow leftCol bottomRow rightCol sg))))"

text \<open>
  \<^verbatim>\<open>getCellIdsFromFormula\<close>. \<^verbatim>\<open>formula[1:]\<close> panics on the empty string. The loop
  walks the rest: \<open>tok\<close> is \<^verbatim>\<open>formula[start:i]\<close>, the bytes read since the last operator,
  and \<open>sg\<close> is the operator before it.
\<close>

fun scanFormula :: "string \<Rightarrow> string \<Rightarrow> string \<Rightarrow> CellId list result" where
  "scanFormula [] tok sg = getCellIdsFromRange tok sg"
| "scanFormula (c # cs) tok sg =
     (if c \<noteq> CHR ''+'' \<and> c \<noteq> CHR ''-'' then scanFormula cs (tok @ [c]) sg
      else (case getCellIdsFromRange tok sg of
              Inl a \<Rightarrow> Inl a
            | Inr ids \<Rightarrow>
                (case scanFormula cs [] [c] of
                   Inl a \<Rightarrow> Inl a
                 | Inr ids' \<Rightarrow> Inr (ids @ ids'))))"

definition getCellIdsFromFormula :: "string \<Rightarrow> CellId list result" where
  "getCellIdsFromFormula f =
     (case f of
        [] \<Rightarrow> Inl SliceBoundsOutOfRange
      | _ # rest \<Rightarrow> scanFormula rest [] ''+'')"

subsection \<open>The dependents maps\<close>

fun deleteLoop :: "string \<Rightarrow> CellId list \<Rightarrow> SpreadSheet \<Rightarrow> SpreadSheet result" where
  "deleteLoop cellId [] sheet = Inr sheet"
| "deleteLoop cellId (i # ids) sheet =
     (case updCell sheet (row i) (col i)
             (\<lambda>x. x\<lparr>dependentCells := dependentCells x - {cellId}\<rparr>) of
        Inl a \<Rightarrow> Inl a
      | Inr sheet' \<Rightarrow> deleteLoop cellId ids sheet')"

definition deleteDependees :: "SpreadSheet \<Rightarrow> string \<Rightarrow> string \<Rightarrow> SpreadSheet result" where
  "deleteDependees sheet cellId f =
     (case getCellIdsFromFormula f of
        Inl a \<Rightarrow> Inl a
      | Inr ids \<Rightarrow> deleteLoop cellId ids sheet)"

fun addLoop :: "string \<Rightarrow> CellId list \<Rightarrow> SpreadSheet \<Rightarrow> SpreadSheet result" where
  "addLoop cellId [] sheet = Inr sheet"
| "addLoop cellId (i # ids) sheet =
     (case updCell sheet (row i) (col i)
             (\<lambda>x. x\<lparr>dependentCells := insert cellId (dependentCells x)\<rparr>) of
        Inl a \<Rightarrow> Inl a
      | Inr sheet' \<Rightarrow> addLoop cellId ids sheet')"

definition addDependees :: "SpreadSheet \<Rightarrow> string \<Rightarrow> string \<Rightarrow> SpreadSheet result" where
  "addDependees sheet cellId f =
     (case getCellIdsFromFormula f of
        Inl a \<Rightarrow> Inl a
      | Inr ids \<Rightarrow> addLoop cellId ids sheet)"

subsection \<open>computeCellValue\<close>

text \<open>The loop over the terms: \<open>v\<close> is the local \<^verbatim>\<open>value\<close>.\<close>

fun sumLoop :: "SpreadSheet \<Rightarrow> CellId list \<Rightarrow> int \<Rightarrow> int result" where
  "sumLoop sheet [] v = Inr v"
| "sumLoop sheet (i # ids) v =
     (if sign i = ''+''
      then (case val i of
              Some n \<Rightarrow> sumLoop sheet ids (wrap64 (v + n))
            | None \<Rightarrow>
                (case cellAt sheet (row i) (col i) of
                   Inl a \<Rightarrow> Inl a
                 | Inr x \<Rightarrow> sumLoop sheet ids (wrap64 (v + value x))))
      else if sign i = ''-''
      then (case val i of
              Some n \<Rightarrow> sumLoop sheet ids (wrap64 (v - n))
            | None \<Rightarrow>
                (case cellAt sheet (row i) (col i) of
                   Inl a \<Rightarrow> Inl a
                 | Inr x \<Rightarrow> sumLoop sheet ids (wrap64 (v - value x))))
      else sumLoop sheet ids v)"

definition computeCellValue :: "SpreadSheet \<Rightarrow> string \<Rightarrow> SpreadSheet result" where
  "computeCellValue sheet cellId =
     (case getCellRowCol cellId of
        Inl a \<Rightarrow> Inl a
      | Inr (r, c, Some e) \<Rightarrow> Inr sheet
      | Inr (r, c, None) \<Rightarrow>
          (case cellAt sheet r c of
             Inl a \<Rightarrow> Inl a
           | Inr x \<Rightarrow>
               (case formula x of
                  None \<Rightarrow> Inr (setCell sheet r c (x\<lparr>value := 0\<rparr>))
                | Some f \<Rightarrow>
                    (case getCellIdsFromFormula f of
                       Inl a \<Rightarrow> Inl a
                     | Inr ids \<Rightarrow>
                         (case sumLoop sheet ids 0 of
                            Inl a \<Rightarrow> Inl a
                          | Inr v \<Rightarrow> Inr (setCell sheet r c (x\<lparr>value := v\<rparr>)))))))"

subsection \<open>SetCellValue\<close>

text \<open>
  Lines 81 to 108 of the source: resolve the cell, normalise a blank value, delete the
  edges of the old formula, store the integer or the formula (evaluating it), add the
  edges of the new formula. \<open>installValue\<close> is the \<^verbatim>\<open>if\<close> of lines 95 to 103, \<open>install\<close>
  is lines 81 to 108 as a whole; the source has them inline in \<^verbatim>\<open>SetCellValue\<close>.
\<close>

definition installValue :: "SpreadSheet \<Rightarrow> string \<Rightarrow> int \<Rightarrow> int \<Rightarrow> string \<Rightarrow> SpreadSheet result" where
  "installValue sheet cellId r c v =
     (case Atoi v of
        Some n \<Rightarrow> updCell sheet r c (\<lambda>x. x\<lparr>value := n, formula := None\<rparr>)
      | None \<Rightarrow>
          (case updCell sheet r c (\<lambda>x. x\<lparr>formula := Some v\<rparr>) of
             Inl a \<Rightarrow> Inl a
           | Inr sheet' \<Rightarrow> computeCellValue sheet' cellId))"

definition install :: "SpreadSheet \<Rightarrow> string \<Rightarrow> string \<Rightarrow> (error option \<times> SpreadSheet) result" where
  "install sheet cellId v0 =
     (case getCellRowCol cellId of
        Inl a \<Rightarrow> Inl a
      | Inr (r, c, Some e) \<Rightarrow> Inr (Some e, sheet)
      | Inr (r, c, None) \<Rightarrow>
          (let v = (if allSpace v0 then ''0'' else v0)
           in case cellAt sheet r c of
                Inl a \<Rightarrow> Inl a
              | Inr x \<Rightarrow>
                  (case (case formula x of
                           None \<Rightarrow> Inr sheet
                         | Some f \<Rightarrow> deleteDependees sheet cellId f) of
                     Inl a \<Rightarrow> Inl a
                   | Inr sheet1 \<Rightarrow>
                       (case installValue sheet1 cellId r c v of
                          Inl a \<Rightarrow> Inl a
                        | Inr sheet2 \<Rightarrow>
                            (case cellAt sheet2 r c of
                               Inl a \<Rightarrow> Inl a
                             | Inr y \<Rightarrow>
                                 (case (case formula y of
                                          None \<Rightarrow> Inr sheet2
                                        | Some f \<Rightarrow> addDependees sheet2 cellId f) of
                                    Inl a \<Rightarrow> Inl a
                                  | Inr sheet3 \<Rightarrow> Inr (None, sheet3)))))))"

text \<open>
  Lines 112 to 114: the loop over the keys of the cell's dependents map. Go leaves the
  order of a \<^verbatim>\<open>range\<close> over a map unspecified, so the order is a parameter: \<open>order\<close> is
  the sequence of keys the loop visits, and \<open>rangeOrder\<close> says that this sequence lists
  every key of the map once. \<^verbatim>\<open>computeCellValue\<close> does not change any dependents map.
\<close>

fun recompute :: "string list \<Rightarrow> SpreadSheet \<Rightarrow> SpreadSheet result" where
  "recompute [] sheet = Inr sheet"
| "recompute (cid # cids) sheet =
     (case computeCellValue sheet cid of
        Inl a \<Rightarrow> Inl a
      | Inr sheet' \<Rightarrow> recompute cids sheet')"

definition SetCellValue ::
  "string list \<Rightarrow> SpreadSheet \<Rightarrow> string \<Rightarrow> string \<Rightarrow> (error option \<times> SpreadSheet) result" where
  "SetCellValue order sheet cellId v =
     (case install sheet cellId v of
        Inl a \<Rightarrow> Inl a
      | Inr (Some e, sheet') \<Rightarrow> Inr (Some e, sheet')
      | Inr (None, sheet') \<Rightarrow>
          (case recompute order sheet' of
             Inl a \<Rightarrow> Inl a
           | Inr sheet'' \<Rightarrow> Inr (None, sheet'')))"

definition loopKeys :: "SpreadSheet \<Rightarrow> string \<Rightarrow> string set" where
  "loopKeys sheet cellId =
     (case getCellRowCol cellId of
        Inl a \<Rightarrow> {}
      | Inr (r, c, _) \<Rightarrow> (case cellAt sheet r c of Inl a \<Rightarrow> {} | Inr x \<Rightarrow> dependentCells x))"

definition rangeOrder :: "string list \<Rightarrow> SpreadSheet \<Rightarrow> string \<Rightarrow> string \<Rightarrow> bool" where
  "rangeOrder order sheet cellId v =
     (case install sheet cellId v of
        Inr (None, sheet') \<Rightarrow> distinct order \<and> set order = loopKeys sheet' cellId
      | _ \<Rightarrow> True)"

subsection \<open>GetCellValue\<close>

definition GetCellValue :: "SpreadSheet \<Rightarrow> string \<Rightarrow> (int \<times> error option) result" where
  "GetCellValue sheet cellId =
     (case getCellRowCol cellId of
        Inl a \<Rightarrow> Inl a
      | Inr (r, c, Some e) \<Rightarrow> Inr (0, Some e)
      | Inr (r, c, None) \<Rightarrow>
          if r \<ge> int (length (cells sheet)) then Inr (0, Some RowOutOfBounds)
          else (case cells sheet of
                  [] \<Rightarrow> Inl IndexOutOfRange
                | row0 # _ \<Rightarrow>
                    if c \<ge> int (length row0) then Inr (0, Some ColumnOutOfBounds)
                    else (case cellAt sheet r c of
                            Inl a \<Rightarrow> Inl a
                          | Inr x \<Rightarrow> Inr (value x, None))))"

subsection \<open>Sequences of calls\<close>

text \<open>
  A sequence of calls of \<^verbatim>\<open>SetCellValue\<close> on a new sheet, each with the order its loop
  takes: \<open>Some\<close> of the last sheet when the sheet could be built, every order listed the
  keys of its loop and every call returned \<^verbatim>\<open>nil\<close>.
\<close>

fun calls :: "(string list \<times> string \<times> string) list \<Rightarrow> SpreadSheet \<Rightarrow> SpreadSheet option" where
  "calls [] sheet = Some sheet"
| "calls ((order, cellId, v) # rest) sheet =
     (if rangeOrder order sheet cellId v
      then (case SetCellValue order sheet cellId v of
              Inr (None, sheet') \<Rightarrow> calls rest sheet'
            | _ \<Rightarrow> None)
      else None)"

definition session :: "int \<Rightarrow> int \<Rightarrow> (string list \<times> string \<times> string) list \<Rightarrow> SpreadSheet option" where
  "session numRows numCols cs =
     (case CreateSpreadSheet numRows numCols of
        Inl a \<Rightarrow> None
      | Inr sheet \<Rightarrow> calls cs sheet)"

subsection \<open>Vocabulary of the statements and of the proofs\<close>

text \<open>
  None of the following is code of the program.
  \<^item> \<open>shape\<close> and \<open>inGrid\<close> describe the grid; \<open>rectangular\<close> says that all rows have one
    length; \<open>valueAt\<close> reads the value stored at a position (0 outside the grid).
  \<^item> \<open>related P s s'\<close> says that \<open>s'\<close> has the grid of \<open>s\<close> and that \<open>P r c\<close> relates the
    cell of \<open>s\<close> and the cell of \<open>s'\<close> at each position \<open>(r, c)\<close>. The effect of each
    function on the sheet is stated with it: \<open>onlyValue\<close> for \<^verbatim>\<open>computeCellValue\<close>,
    \<open>untouched\<close> for the loop of \<^verbatim>\<open>SetCellValue\<close>, \<open>installed\<close> for lines 81 to 108.
  \<^item> \<open>positions\<close> are the rows and columns a list of terms carries, \<open>edges\<close> those of the
    terms of a stored formula, as \<^verbatim>\<open>addDependees\<close> and \<^verbatim>\<open>deleteDependees\<close> read them (a
    literal term carries row 0 and column 0); \<open>parses\<close> says that
    \<^verbatim>\<open>getCellIdsFromFormula\<close> returns for the formula; \<open>computable\<close> says that
    \<^verbatim>\<open>computeCellValue\<close> finds the cell of a key and every cell its formula reads.
  \<^item> \<open>canonicalId\<close> is the spelling of a cell identifier that the header of the source
    describes: a capital letter, then the row number in decimal digits, with no sign
    and no leading zero. \<^verbatim>\<open>getCellRowCol\<close> also accepts \<^verbatim>\<open>A01\<close> and \<^verbatim>\<open>A+1\<close> for the cell A1,
    and the dependents maps are keyed by the identifier as the caller spelled it.
  \<^item> \<open>reachable\<close> are the sheets that calls of \<^verbatim>\<open>SetCellValue\<close> with canonical identifiers
    produce from a new sheet; \<open>wellFormed\<close> is the invariant they satisfy: the grid is
    rectangular, every stored formula parses and its terms lie in the grid, and every
    key of a dependents map is canonical and names a cell whose formula has a term at
    the cell that holds the key.
\<close>

definition shape :: "SpreadSheet \<Rightarrow> nat list" where
  "shape sheet = map length (cells sheet)"

definition inGrid :: "SpreadSheet \<Rightarrow> int \<Rightarrow> int \<Rightarrow> bool" where
  "inGrid sheet r c =
     (0 \<le> r \<and> r < int (length (cells sheet)) \<and> 0 \<le> c \<and> c < int (length (cells sheet ! nat r)))"

definition related :: "(int \<Rightarrow> int \<Rightarrow> Cell \<Rightarrow> Cell \<Rightarrow> bool) \<Rightarrow> SpreadSheet \<Rightarrow> SpreadSheet \<Rightarrow> bool" where
  "related P s s' =
     (shape s' = shape s \<and> (\<forall>r c. rel_sum (=) (P r c) (cellAt s r c) (cellAt s' r c)))"

definition positions :: "CellId list \<Rightarrow> (int \<times> int) set" where
  "positions ids = (\<lambda>i. (row i, col i)) ` set ids"

definition onlyValue :: "string \<Rightarrow> int \<Rightarrow> int \<Rightarrow> Cell \<Rightarrow> Cell \<Rightarrow> bool" where
  "onlyValue k r c u u' =
     (dependentCells u' = dependentCells u \<and> formula u' = formula u
      \<and> (getCellRowCol k \<noteq> Inr (r, c, None) \<longrightarrow> u' = u))"

definition canonicalId :: "string \<Rightarrow> bool" where
  "canonicalId cid =
     (case cid of
        [] \<Rightarrow> False
      | c # rest \<Rightarrow> 65 \<le> (of_char c :: nat) \<and> (of_char c :: nat) \<le> 90
                   \<and> rest \<noteq> [] \<and> list_all isDigit rest \<and> hd rest \<noteq> CHR ''0''
                   \<and> decimal rest < 2 ^ 63)"

definition edges :: "string option \<Rightarrow> (int \<times> int) set" where
  "edges fo =
     (case fo of
        None \<Rightarrow> {}
      | Some f \<Rightarrow> (case getCellIdsFromFormula f of Inl a \<Rightarrow> {} | Inr ids \<Rightarrow> positions ids))"

definition parses :: "string option \<Rightarrow> bool" where
  "parses fo =
     (case fo of
        None \<Rightarrow> True
      | Some f \<Rightarrow> (case getCellIdsFromFormula f of Inl a \<Rightarrow> False | Inr ids \<Rightarrow> True))"

definition installed ::
  "string \<Rightarrow> int \<Rightarrow> int \<Rightarrow> (int \<times> int) set \<Rightarrow> (int \<times> int) set \<Rightarrow> string option \<Rightarrow> int option
   \<Rightarrow> int \<Rightarrow> int \<Rightarrow> Cell \<Rightarrow> Cell \<Rightarrow> bool" where
  "installed cid r c oldE newE newF lit r' c' u u' =
     (dependentCells u' = (if (r', c') \<in> newE then insert cid (dependentCells u)
                           else if (r', c') \<in> oldE then dependentCells u - {cid}
                           else dependentCells u)
      \<and> (if r' = r \<and> c' = c
         then formula u' = newF \<and> (case lit of None \<Rightarrow> True | Some n \<Rightarrow> value u' = n)
         else formula u' = formula u \<and> value u' = value u))"

definition rectangular :: "SpreadSheet \<Rightarrow> bool" where
  "rectangular s = (\<forall>a \<in> set (shape s). \<forall>b \<in> set (shape s). a = b)"

definition wellFormed :: "SpreadSheet \<Rightarrow> bool" where
  "wellFormed s =
     (rectangular s
      \<and> (\<forall>r c x. cellAt s r c = Inr x \<longrightarrow>
            parses (formula x) \<and> (\<forall>p \<in> edges (formula x). inGrid s (fst p) (snd p)))
      \<and> (\<forall>r c x k. cellAt s r c = Inr x \<longrightarrow> k \<in> dependentCells x \<longrightarrow>
            canonicalId k
            \<and> (\<exists>rk ck y. getCellRowCol k = Inr (rk, ck, None) \<and> cellAt s rk ck = Inr y
                         \<and> (r, c) \<in> edges (formula y))))"

inductive reachable :: "SpreadSheet \<Rightarrow> bool" where
  new: "CreateSpreadSheet numRows numCols = Inr s \<Longrightarrow> reachable s"
| set: "reachable s \<Longrightarrow> canonicalId cid \<Longrightarrow> rangeOrder order s cid v \<Longrightarrow>
        SetCellValue order s cid v = Inr (e, s') \<Longrightarrow> reachable s'"

definition untouched :: "string list \<Rightarrow> int \<Rightarrow> int \<Rightarrow> Cell \<Rightarrow> Cell \<Rightarrow> bool" where
  "untouched ks r c u u' =
     (dependentCells u' = dependentCells u \<and> formula u' = formula u
      \<and> ((\<forall>k \<in> set ks. getCellRowCol k \<noteq> Inr (r, c, None)) \<longrightarrow> u' = u))"

definition computable :: "SpreadSheet \<Rightarrow> string \<Rightarrow> bool" where
  "computable s k =
     (\<exists>r c x. getCellRowCol k = Inr (r, c, None) \<and> cellAt s r c = Inr x \<and> parses (formula x)
              \<and> (\<forall>p \<in> edges (formula x). inGrid s (fst p) (snd p)))"


section \<open>Lemmas about the grid and the loops\<close>

subsection \<open>The rows of a new sheet\<close>

lemma length_newRow: "length (newRow n) = n"
  by (induction n) simp_all

lemma set_newRow: "x \<in> set (newRow n) \<Longrightarrow> x = newCell"
  by (induction n) auto

lemma nth_newRow: "j < n \<Longrightarrow> newRow n ! j = newCell"
  using set_newRow [of "newRow n ! j" n] by (simp add: length_newRow)

lemma length_newRows: "length (newRows i n) = i"
  by (induction i) simp_all

lemma set_newRows: "r \<in> set (newRows i n) \<Longrightarrow> r = newRow n"
  by (induction i) auto

lemma nth_newRows: "k < i \<Longrightarrow> newRows i n ! k = newRow n"
  using set_newRows [of "newRows i n ! k" i n] by (simp add: length_newRows)

lemma cellAt_newRows:
  "cellAt \<lparr>cells = newRows i n\<rparr> r c =
     (if 0 \<le> r \<and> r < int i \<and> 0 \<le> c \<and> c < int n then Inr newCell else Inl IndexOutOfRange)"
  by (auto simp: cellAt_def length_newRows nth_newRows length_newRow nth_newRow)

subsection \<open>Integers, identifiers and the first index of SetCellValue\<close>

lemma wrap64_id: "- (2 ^ 63) \<le> x \<Longrightarrow> x < 2 ^ 63 \<Longrightarrow> wrap64 x = x"
  by (simp add: wrap64_def)

lemma Atoi_range: "Atoi s = Some n \<Longrightarrow> - (2 ^ 63) \<le> n \<and> n < 2 ^ 63"
  by (auto simp: Atoi_def Let_def split: list.splits if_splits)

lemma wrap64_range: "- (2 ^ 63) \<le> wrap64 x \<and> wrap64 x < 2 ^ 63"
proof -
  have "0 \<le> (x + 2 ^ 63) mod 2 ^ 64" "(x + 2 ^ 63) mod 2 ^ 64 < (2 ^ 64 :: int)"
    by simp_all
  then show ?thesis by (simp add: wrap64_def)
qed

lemma getCellRowCol_letter:
  assumes "65 \<le> (of_char c :: nat)" and "(of_char c :: nat) \<le> 90" and "Atoi rest = Some n"
  shows "getCellRowCol (c # rest) = Inr (wrap64 (n - 1), int (of_char c) - 65, None)"
proof -
  have "(of_char c + 256 - 65) mod 256 = (of_char c - 65 :: nat)"
    using assms(1,2) by (simp add: mod_if)
  then show ?thesis
    using assms by (auto simp: getCellRowCol_def Let_def)
qed

lemma SetCellValue_row_out_of_range:
  assumes "getCellRowCol cellId = Inr (r, c, None)"
    and "r < 0 \<or> int (length (cells sheet)) \<le> r"
  shows "SetCellValue order sheet cellId v = Inl IndexOutOfRange"
  using assms by (auto simp: SetCellValue_def install_def cellAt_def Let_def)

lemma fresh33:
  "CreateSpreadSheet 3 3 = Inr \<lparr>cells = [[newCell, newCell, newCell], [newCell, newCell, newCell], [newCell, newCell, newCell]]\<rparr>"
  by code_simp

lemma install_error:
  assumes "install sheet cellId v = Inr (Some e, sheet')"
  shows "sheet' = sheet \<and> getCellRowCol cellId = Inr (- 1, - 1, Some e)
       \<and> (e = InvalidColNumber \<or> e = InvalidRowNumber)"
proof (cases "getCellRowCol cellId")
  case (Inl a)
  with assms show ?thesis by (simp add: install_def)
next
  case (Inr t)
  obtain r c eo where t: "t = (r, c, eo)" by (cases t)
  show ?thesis
  proof (cases eo)
    case None
    with assms Inr t show ?thesis
      by (auto simp: install_def Let_def split: sum.splits option.splits)
  next
    case (Some e')
    with assms Inr t have "e' = e" "sheet' = sheet" by (simp_all add: install_def)
    moreover from Inr t Some have "r = - 1 \<and> c = - 1 \<and> (e' = InvalidColNumber \<or> e' = InvalidRowNumber)"
      by (auto simp: getCellRowCol_def Let_def split: list.splits if_splits option.splits)
    ultimately show ?thesis using Inr t Some by simp
  qed
qed

subsection \<open>Reading and writing one cell\<close>

lemma cellAt_inGrid: "cellAt s r c = (if inGrid s r c then Inr (cells s ! nat r ! nat c) else Inl IndexOutOfRange)"
  by (simp add: cellAt_def inGrid_def)

lemma cellAt_Inr_inGrid: "cellAt s r c = Inr x \<Longrightarrow> inGrid s r c"
  by (simp add: cellAt_inGrid split: if_splits)

lemma inGrid_cellAt: "inGrid s r c \<Longrightarrow> \<exists>x. cellAt s r c = Inr x"
  by (simp add: cellAt_inGrid)

lemma cellAt_Inl: "cellAt s r c = Inl a \<Longrightarrow> a = IndexOutOfRange \<and> \<not> inGrid s r c"
  by (simp add: cellAt_inGrid split: if_splits)

lemma cellAt_setCell:
  assumes "cellAt s r c = Inr x"
  shows "cellAt (setCell s r c y) r' c' = (if r' = r \<and> c' = c then Inr y else cellAt s r' c')"
proof -
  from assms have g: "0 \<le> r" "nat r < length (cells s)" "0 \<le> c" "nat c < length (cells s ! nat r)"
    by (auto simp: cellAt_def split: if_splits)
  show ?thesis
  proof (cases "r' = r")
    case True
    with g show ?thesis
      by (auto simp: cellAt_def setCell_def nth_list_update nat_eq_iff)
  next
    case False
    with g show ?thesis
      by (auto simp: cellAt_def setCell_def nth_list_update nat_eq_iff)
  qed
qed

lemma shape_setCell:
  assumes "cellAt s r c = Inr x"
  shows "shape (setCell s r c y) = shape s"
proof -
  from assms have g: "nat r < length (cells s)"
    by (auto simp: cellAt_def split: if_splits)
  then show ?thesis
    by (simp add: shape_def setCell_def map_update list_update_same_conv)
qed

lemma related_refl: "(\<And>r c x. P r c x x) \<Longrightarrow> related P s s"
  by (auto simp: related_def rel_sum.simps) (metis sum.exhaust)

lemma related_trans:
  assumes "related P s s1" and "related Q s1 s2"
    and "\<And>r c x y z. P r c x y \<Longrightarrow> Q r c y z \<Longrightarrow> R r c x z"
  shows "related R s s2"
  unfolding related_def
proof (intro conjI allI)
  show "shape s2 = shape s" using assms(1,2) by (simp add: related_def)
  fix r c
  from assms(1) have 1: "rel_sum (=) (P r c) (cellAt s r c) (cellAt s1 r c)" by (simp add: related_def)
  from assms(2) have 2: "rel_sum (=) (Q r c) (cellAt s1 r c) (cellAt s2 r c)" by (simp add: related_def)
  from 1 2 show "rel_sum (=) (R r c) (cellAt s r c) (cellAt s2 r c)"
    by (auto simp: rel_sum.simps intro: assms(3))
qed

lemma related_mono:
  assumes "related P s s'" and "\<And>r c x y. P r c x y \<Longrightarrow> Q r c x y"
  shows "related Q s s'"
  unfolding related_def
proof (intro conjI allI)
  show "shape s' = shape s" using assms(1) by (simp add: related_def)
  fix r c
  from assms(1) have "rel_sum (=) (P r c) (cellAt s r c) (cellAt s' r c)" by (simp add: related_def)
  then show "rel_sum (=) (Q r c) (cellAt s r c) (cellAt s' r c)"
    by (auto simp: rel_sum.simps intro: assms(2))
qed

lemma related_fwd: "related P s s' \<Longrightarrow> cellAt s r c = Inr x \<Longrightarrow> \<exists>x'. cellAt s' r c = Inr x' \<and> P r c x x'"
  unfolding related_def
  by (metis (no_types, lifting) rel_sum.simps Inl_Inr_False sum.inject(2))

lemma related_bwd: "related P s s' \<Longrightarrow> cellAt s' r c = Inr x' \<Longrightarrow> \<exists>x. cellAt s r c = Inr x \<and> P r c x x'"
  unfolding related_def
  by (metis (no_types, lifting) rel_sum.simps Inl_Inr_False sum.inject(2))

lemma related_inGrid: "related P s s' \<Longrightarrow> inGrid s' r c = inGrid s r c"
  by (metis related_fwd related_bwd cellAt_Inr_inGrid inGrid_cellAt)

lemma related_shape: "related P s s' \<Longrightarrow> shape s' = shape s"
  by (simp add: related_def)

lemma setCell_related:
  assumes "cellAt s r c = Inr x"
  shows "related (\<lambda>r' c' u u'. if r' = r \<and> c' = c then u = x \<and> u' = y else u' = u) s (setCell s r c y)"
  unfolding related_def
proof (intro conjI allI)
  show "shape (setCell s r c y) = shape s" using assms by (rule shape_setCell)
  fix r' c'
  show "rel_sum (=) (\<lambda>u u'. if r' = r \<and> c' = c then u = x \<and> u' = y else u' = u)
          (cellAt s r' c') (cellAt (setCell s r c y) r' c')"
    using assms by (cases "cellAt s r' c'") (auto simp: cellAt_setCell [OF assms])
qed

lemma updCell_Inr: "updCell s r c f = Inr s' \<Longrightarrow> \<exists>x. cellAt s r c = Inr x \<and> s' = setCell s r c (f x)"
  by (auto simp: updCell_def split: sum.splits)

lemma updCell_ok: "inGrid s r c \<Longrightarrow> \<exists>s'. updCell s r c f = Inr s'"
  by (auto simp: updCell_def dest: inGrid_cellAt)

lemma updCell_related:
  assumes "updCell s r c f = Inr s'"
  shows "related (\<lambda>r' c' u u'. u' = (if r' = r \<and> c' = c then f u else u)) s s'"
proof -
  from updCell_Inr [OF assms] obtain x where x: "cellAt s r c = Inr x" and s': "s' = setCell s r c (f x)"
    by blast
  show ?thesis
    unfolding s' by (rule related_mono [OF setCell_related [OF x]]) (auto split: if_splits)
qed

subsection \<open>The loops over the terms of a formula\<close>

lemma deleteLoop_related:
  "deleteLoop cid ids s = Inr s' \<Longrightarrow>
   related (\<lambda>r c u u'. u' = (if (r, c) \<in> positions ids
                              then u\<lparr>dependentCells := dependentCells u - {cid}\<rparr> else u)) s s'"
proof (induction ids arbitrary: s)
  case Nil
  then show ?case by (auto simp: positions_def intro: related_refl)
next
  case (Cons i ids)
  from Cons.prems obtain s1 where
    u: "updCell s (row i) (col i) (\<lambda>x. x\<lparr>dependentCells := dependentCells x - {cid}\<rparr>) = Inr s1"
    and l: "deleteLoop cid ids s1 = Inr s'"
    by (auto split: sum.splits)
  show ?case
    by (rule related_trans [OF updCell_related [OF u] Cons.IH [OF l]])
       (auto simp: positions_def)
qed

lemma addLoop_related:
  "addLoop cid ids s = Inr s' \<Longrightarrow>
   related (\<lambda>r c u u'. u' = (if (r, c) \<in> positions ids
                              then u\<lparr>dependentCells := insert cid (dependentCells u)\<rparr> else u)) s s'"
proof (induction ids arbitrary: s)
  case Nil
  then show ?case by (auto simp: positions_def intro: related_refl)
next
  case (Cons i ids)
  from Cons.prems obtain s1 where
    u: "updCell s (row i) (col i) (\<lambda>x. x\<lparr>dependentCells := insert cid (dependentCells x)\<rparr>) = Inr s1"
    and l: "addLoop cid ids s1 = Inr s'"
    by (auto split: sum.splits)
  show ?case
    by (rule related_trans [OF updCell_related [OF u] Cons.IH [OF l]])
       (auto simp: positions_def)
qed

lemma deleteLoop_ok:
  "(\<And>i. i \<in> set ids \<Longrightarrow> inGrid s (row i) (col i)) \<Longrightarrow> \<exists>s'. deleteLoop cid ids s = Inr s'"
proof (induction ids arbitrary: s)
  case Nil
  then show ?case by simp
next
  case (Cons i ids)
  from Cons.prems have "inGrid s (row i) (col i)" by simp
  from updCell_ok [OF this] obtain s1 where
    u: "updCell s (row i) (col i) (\<lambda>x. x\<lparr>dependentCells := dependentCells x - {cid}\<rparr>) = Inr s1"
    by blast
  have "\<And>j. j \<in> set ids \<Longrightarrow> inGrid s1 (row j) (col j)"
    using Cons.prems related_inGrid [OF updCell_related [OF u]] by simp
  from Cons.IH [OF this] u show ?case by simp
qed

lemma addLoop_ok:
  "(\<And>i. i \<in> set ids \<Longrightarrow> inGrid s (row i) (col i)) \<Longrightarrow> \<exists>s'. addLoop cid ids s = Inr s'"
proof (induction ids arbitrary: s)
  case Nil
  then show ?case by simp
next
  case (Cons i ids)
  from Cons.prems have "inGrid s (row i) (col i)" by simp
  from updCell_ok [OF this] obtain s1 where
    u: "updCell s (row i) (col i) (\<lambda>x. x\<lparr>dependentCells := insert cid (dependentCells x)\<rparr>) = Inr s1"
    by blast
  have "\<And>j. j \<in> set ids \<Longrightarrow> inGrid s1 (row j) (col j)"
    using Cons.prems related_inGrid [OF updCell_related [OF u]] by simp
  from Cons.IH [OF this] u show ?case by simp
qed

lemma addLoop_inGrid:
  "addLoop cid ids s = Inr s' \<Longrightarrow> i \<in> set ids \<Longrightarrow> inGrid s (row i) (col i)"
proof (induction ids arbitrary: s)
  case Nil
  then show ?case by simp
next
  case (Cons j ids)
  from Cons.prems(1) obtain s1 where
    u: "updCell s (row j) (col j) (\<lambda>x. x\<lparr>dependentCells := insert cid (dependentCells x)\<rparr>) = Inr s1"
    and l: "addLoop cid ids s1 = Inr s'"
    by (auto split: sum.splits)
  show ?case
  proof (cases "i = j")
    case True
    with updCell_Inr [OF u] show ?thesis by (auto dest: cellAt_Inr_inGrid)
  next
    case False
    with Cons.prems(2) have "i \<in> set ids" by simp
    from Cons.IH [OF l this] related_inGrid [OF updCell_related [OF u]] show ?thesis by simp
  qed
qed

lemma sumLoop_ok:
  "(\<And>i. i \<in> set ids \<Longrightarrow> inGrid s (row i) (col i)) \<Longrightarrow> \<exists>v'. sumLoop s ids v = Inr v'"
proof (induction ids arbitrary: v)
  case Nil
  then show ?case by simp
next
  case (Cons i ids)
  from Cons.prems have "inGrid s (row i) (col i)" by simp
  then obtain x where x: "cellAt s (row i) (col i) = Inr x" by (auto dest: inGrid_cellAt)
  have r: "\<And>w. \<exists>v'. sumLoop s ids w = Inr v'" using Cons.IH Cons.prems by simp
  show ?case using x r by (auto split: option.splits)
qed

lemma sumLoop_cong:
  assumes "\<And>r c. map_sum id value (cellAt s' r c) = map_sum id value (cellAt s r c)"
  shows "sumLoop s' ids v = sumLoop s ids v"
proof (induction ids arbitrary: v)
  case Nil
  then show ?case by simp
next
  case (Cons i ids)
  have "map_sum id value (cellAt s' (row i) (col i)) = map_sum id value (cellAt s (row i) (col i))"
    by (rule assms)
  then show ?case
    by (cases "cellAt s (row i) (col i)"; cases "cellAt s' (row i) (col i)")
       (auto simp: Cons.IH split: option.splits)
qed

subsection \<open>The effect of computeCellValue\<close>

lemma computeCellValue_related:
  assumes "computeCellValue s k = Inr s'"
  shows "related (onlyValue k) s s'"
proof (cases "getCellRowCol k")
  case (Inl a)
  with assms show ?thesis by (simp add: computeCellValue_def)
next
  case (Inr t)
  obtain r c eo where t: "t = (r, c, eo)" by (cases t)
  show ?thesis
  proof (cases eo)
    case (Some e)
    with assms Inr t have "s' = s" by (simp add: computeCellValue_def)
    then show ?thesis by (auto simp: onlyValue_def intro: related_refl)
  next
    case None
    with assms Inr t obtain x w where x: "cellAt s r c = Inr x" and s': "s' = setCell s r c (x\<lparr>value := w\<rparr>)"
      by (auto simp: computeCellValue_def split: sum.splits option.splits)
    show ?thesis
      unfolding s'
      by (rule related_mono [OF setCell_related [OF x]])
         (use x Inr t None in \<open>auto simp: onlyValue_def split: if_splits\<close>)
  qed
qed

subsection \<open>Canonical identifiers name one cell each\<close>

lemma decimal_snoc: "decimal (ds @ [d]) = decimal ds * 10 + digitVal d"
  by (simp add: decimal_def)

lemma digitVal_range: "isDigit d \<Longrightarrow> 0 \<le> digitVal d \<and> digitVal d \<le> 9"
  by (auto simp: isDigit_def digitVal_def)

lemma digitVal_inj: "isDigit a \<Longrightarrow> isDigit b \<Longrightarrow> digitVal a = digitVal b \<Longrightarrow> a = b"
proof -
  assume "isDigit a" "isDigit b" "digitVal a = digitVal b"
  then have "(of_char a :: nat) = of_char b" by (simp add: digitVal_def)
  then show "a = b" by simp
qed

lemma digitVal_zero: "isDigit d \<Longrightarrow> digitVal d = 0 \<Longrightarrow> d = CHR ''0''"
proof -
  assume "isDigit d" "digitVal d = 0"
  then have "(of_char d :: nat) = of_char CHR ''0''" by (simp add: digitVal_def)
  then show ?thesis by (simp only: of_char_eq_iff)
qed


lemma decimal_pos: "list_all isDigit ds \<Longrightarrow> ds \<noteq> [] \<Longrightarrow> hd ds \<noteq> CHR ''0'' \<Longrightarrow> 0 < decimal ds"
proof (induction ds rule: rev_induct)
  case Nil
  then show ?case by simp
next
  case (snoc d ds)
  show ?case
  proof (cases "ds = []")
    case True
    with snoc.prems have "isDigit d" "d \<noteq> CHR ''0''" by simp_all
    with digitVal_zero [of d] digitVal_range [of d] have "0 < digitVal d"
      by (cases "digitVal d = 0") auto
    with True show ?thesis by (simp add: decimal_def)
  next
    case False
    with snoc have "0 < decimal ds" by simp
    with snoc.prems digitVal_range [of d] show ?thesis by (simp add: decimal_snoc)
  qed
qed

lemma decimal_inj:
  "list_all isDigit as \<Longrightarrow> list_all isDigit bs \<Longrightarrow> as = [] \<or> hd as \<noteq> CHR ''0'' \<Longrightarrow>
   bs = [] \<or> hd bs \<noteq> CHR ''0'' \<Longrightarrow> decimal as = decimal bs \<Longrightarrow> as = bs"
proof (induction as arbitrary: bs rule: rev_induct)
  case Nil
  show ?case
  proof (cases "bs = []")
    case False
    with Nil decimal_pos [of bs] show ?thesis by (simp add: decimal_def)
  qed simp
next
  case (snoc a as)
  show ?case
  proof (cases bs rule: rev_cases)
    case Nil
    with snoc.prems decimal_pos [of "as @ [a]"] show ?thesis by (simp add: decimal_def)
  next
    case (snoc bs' b)
    from snoc.prems(1,2) snoc have d: "isDigit a" "isDigit b" "list_all isDigit as" "list_all isDigit bs'"
      by simp_all
    from snoc.prems(5) snoc have e: "decimal as * 10 + digitVal a = decimal bs' * 10 + digitVal b"
      by (simp add: decimal_snoc)
    with digitVal_range [OF d(1)] digitVal_range [OF d(2)]
    have "decimal as = decimal bs'" "digitVal a = digitVal b" by presburger+
    moreover have "as = [] \<or> hd as \<noteq> CHR ''0''" using snoc.prems(3) by (cases as) auto
    moreover have "bs' = [] \<or> hd bs' \<noteq> CHR ''0''" using snoc.prems(4) snoc by (cases bs') auto
    ultimately have "as = bs'" "a = b"
      using snoc.IH [of bs'] d digitVal_inj by blast+
    with snoc show ?thesis by simp
  qed
qed

lemma canonicalId_Atoi:
  assumes "canonicalId (c # rest)"
  shows "Atoi rest = Some (decimal rest) \<and> 0 < decimal rest"
proof -
  from assms have d: "rest \<noteq> []" "list_all isDigit rest" "hd rest \<noteq> CHR ''0''" "decimal rest < 2 ^ 63"
    by (simp_all add: canonicalId_def)
  from d have p: "0 < decimal rest" by (intro decimal_pos)
  from d obtain a as where r: "rest = a # as" by (cases rest) auto
  with d have "isDigit a" by simp
  then have "a \<noteq> CHR ''-''" "a \<noteq> CHR ''+''" by (auto simp: isDigit_def)
  with d p r show ?thesis by (auto simp: Atoi_def Let_def)
qed

lemma canonicalId_resolves:
  assumes "canonicalId cid"
  shows "\<exists>c rest. cid = c # rest
           \<and> getCellRowCol cid = Inr (decimal rest - 1, int (of_char c) - 65, None)"
proof -
  from assms obtain c rest where cid: "cid = c # rest" by (cases cid) (auto simp: canonicalId_def)
  from assms cid have l: "65 \<le> (of_char c :: nat)" "(of_char c :: nat) \<le> 90"
    and b: "decimal rest < 2 ^ 63"
    by (simp_all add: canonicalId_def)
  from canonicalId_Atoi assms cid have a: "Atoi rest = Some (decimal rest)" "0 < decimal rest" by auto
  have m: "(of_char c + 256 - 65) mod 256 = (of_char c - 65 :: nat)"
    using l by (simp add: mod_if)
  have w: "wrap64 (decimal rest - 1) = decimal rest - 1"
    using a(2) b by (simp add: wrap64_def)
  show ?thesis using cid l a m w by (auto simp: getCellRowCol_def Let_def)
qed

lemma canonicalId_inj:
  assumes "canonicalId k" and "canonicalId k'" and "getCellRowCol k = getCellRowCol k'"
  shows "k = k'"
proof -
  from canonicalId_resolves [OF assms(1)] obtain c rest where
    k: "k = c # rest" "getCellRowCol k = Inr (decimal rest - 1, int (of_char c) - 65, None)" by blast
  from canonicalId_resolves [OF assms(2)] obtain c' rest' where
    k': "k' = c' # rest'" "getCellRowCol k' = Inr (decimal rest' - 1, int (of_char c') - 65, None)" by blast
  from assms(3) k k' have e: "decimal rest = decimal rest'" "int (of_char c) = int (of_char c')"
    by simp_all
  from e(2) have "c = c'" by simp
  moreover from assms(1,2) k k' e(1) have "rest = rest'"
    by (intro decimal_inj) (simp_all add: canonicalId_def)
  ultimately show ?thesis using k k' by simp
qed

subsection \<open>Lines 81 to 108 of SetCellValue\<close>

lemma edges_None [simp]: "edges None = {}"
  by (simp add: edges_def)

lemma parses_None [simp]: "parses None"
  by (simp add: parses_def)

lemma deleteStep_related:
  assumes "(case formula x of None \<Rightarrow> Inr s | Some f \<Rightarrow> deleteDependees s cid f) = Inr s1"
  shows "parses (formula x)
       \<and> related (\<lambda>r' c' u u'. u' = (if (r', c') \<in> edges (formula x)
                      then u\<lparr>dependentCells := dependentCells u - {cid}\<rparr> else u)) s s1"
proof (cases "formula x")
  case None
  with assms show ?thesis by (auto intro: related_refl)
next
  case (Some f)
  with assms obtain ids where p: "getCellIdsFromFormula f = Inr ids" and l: "deleteLoop cid ids s = Inr s1"
    by (auto simp: deleteDependees_def split: sum.splits)
  from deleteLoop_related [OF l] Some p show ?thesis
    by (simp add: parses_def edges_def)
qed

lemma addStep_related:
  assumes "(case newF of None \<Rightarrow> Inr s | Some f \<Rightarrow> addDependees s cid f) = Inr s1"
  shows "parses newF \<and> (\<forall>p \<in> edges newF. inGrid s (fst p) (snd p))
       \<and> related (\<lambda>r' c' u u'. u' = (if (r', c') \<in> edges newF
                      then u\<lparr>dependentCells := insert cid (dependentCells u)\<rparr> else u)) s s1"
proof (cases newF)
  case None
  with assms show ?thesis by (auto intro: related_refl)
next
  case (Some f)
  with assms obtain ids where p: "getCellIdsFromFormula f = Inr ids" and l: "addLoop cid ids s = Inr s1"
    by (auto simp: addDependees_def split: sum.splits)
  from addLoop_inGrid [OF l] have "\<forall>p \<in> positions ids. inGrid s (fst p) (snd p)"
    by (auto simp: positions_def)
  with addLoop_related [OF l] Some p show ?thesis
    by (simp add: parses_def edges_def)
qed

lemma installValue_related:
  assumes i: "installValue s cid r c v = Inr s2" and g: "getCellRowCol cid = Inr (r, c, None)"
  shows "related (\<lambda>r' c' u u'. dependentCells u' = dependentCells u
            \<and> (if r' = r \<and> c' = c
               then formula u' = (case Atoi v of Some n \<Rightarrow> None | None \<Rightarrow> Some v)
                  \<and> (case Atoi v of None \<Rightarrow> True | Some n \<Rightarrow> value u' = n)
               else u' = u)) s s2"
proof (cases "Atoi v")
  case (Some n)
  with i have u: "updCell s r c (\<lambda>x. x\<lparr>value := n, formula := None\<rparr>) = Inr s2"
    by (simp add: installValue_def)
  show ?thesis
    by (rule related_mono [OF updCell_related [OF u]]) (simp add: Some)
next
  case None
  with i obtain s1 where u: "updCell s r c (\<lambda>x. x\<lparr>formula := Some v\<rparr>) = Inr s1"
    and k: "computeCellValue s1 cid = Inr s2"
    by (auto simp: installValue_def split: sum.splits)
  show ?thesis
    by (rule related_trans [OF updCell_related [OF u] computeCellValue_related [OF k]])
       (use g None in \<open>auto simp: onlyValue_def\<close>)
qed

lemma install_effect:
  assumes i: "install s cid v = Inr (None, s')" and g: "getCellRowCol cid = Inr (r, c, None)"
    and v': "v' = (if allSpace v then ''0'' else v)"
    and n: "newF = (case Atoi v' of Some n \<Rightarrow> None | None \<Rightarrow> Some v')"
  shows "\<exists>x. cellAt s r c = Inr x \<and> parses (formula x) \<and> parses newF
           \<and> (\<forall>p \<in> edges newF. inGrid s (fst p) (snd p))
           \<and> related (installed cid r c (edges (formula x)) (edges newF) newF (Atoi v')) s s'"
proof -
  from i g v' obtain x s1 s2 y where
    x: "cellAt s r c = Inr x"
    and d: "(case formula x of None \<Rightarrow> Inr s | Some f \<Rightarrow> deleteDependees s cid f) = Inr s1"
    and iv: "installValue s1 cid r c v' = Inr s2"
    and y: "cellAt s2 r c = Inr y"
    and a: "(case formula y of None \<Rightarrow> Inr s2 | Some f \<Rightarrow> addDependees s2 cid f) = Inr s'"
    by (auto simp: install_def Let_def split: sum.splits)
  note D = deleteStep_related [OF d]
  note V = installValue_related [OF iv g]
  from related_bwd [OF V y] n have fy: "formula y = newF" by auto
  note A = addStep_related [OF a [unfolded fy]]
  have g1: "\<And>r' c'. inGrid s2 r' c' = inGrid s r' c'"
    using related_inGrid [OF conjunct2 [OF D]] related_inGrid [OF V] by simp
  have R1: "related (\<lambda>r' c' u u'. dependentCells u' =
                (if (r', c') \<in> edges (formula x) then dependentCells u - {cid} else dependentCells u)
            \<and> (if r' = r \<and> c' = c
               then formula u' = newF \<and> (case Atoi v' of None \<Rightarrow> True | Some n \<Rightarrow> value u' = n)
               else formula u' = formula u \<and> value u' = value u)) s s2"
    by (rule related_trans [OF conjunct2 [OF D] V]) (auto simp: n split: if_splits)
  have R: "related (installed cid r c (edges (formula x)) (edges newF) newF (Atoi v')) s s'"
    by (rule related_trans [OF R1 conjunct2 [OF conjunct2 [OF A]]])
       (auto simp: installed_def split: if_splits option.splits)
  from x D A g1 R show ?thesis by auto
qed

subsection \<open>The loop over the dependents\<close>

lemma recompute_related: "recompute ks s = Inr s' \<Longrightarrow> related (untouched ks) s s'"
proof (induction ks arbitrary: s)
  case Nil
  then show ?case by (auto simp: untouched_def intro: related_refl)
next
  case (Cons k ks)
  from Cons.prems obtain s1 where c: "computeCellValue s k = Inr s1" and r: "recompute ks s1 = Inr s'"
    by (auto split: sum.splits)
  show ?case
    by (rule related_trans [OF computeCellValue_related [OF c] Cons.IH [OF r]])
       (auto simp: untouched_def onlyValue_def)
qed

lemma computeCellValue_ok:
  assumes "computable s k"
  shows "\<exists>s'. computeCellValue s k = Inr s'"
proof -
  from assms obtain r c x where g: "getCellRowCol k = Inr (r, c, None)" and x: "cellAt s r c = Inr x"
    and p: "parses (formula x)" and e: "\<forall>p \<in> edges (formula x). inGrid s (fst p) (snd p)"
    by (auto simp: computable_def)
  show ?thesis
  proof (cases "formula x")
    case None
    with g x show ?thesis by (simp add: computeCellValue_def)
  next
    case (Some f)
    with p obtain ids where ids: "getCellIdsFromFormula f = Inr ids"
      by (auto simp: parses_def split: sum.splits)
    with e Some have "\<And>i. i \<in> set ids \<Longrightarrow> inGrid s (row i) (col i)"
      by (auto simp: edges_def positions_def)
    from sumLoop_ok [OF this] obtain w where "sumLoop s ids 0 = Inr w" by blast
    with g x Some ids show ?thesis by (simp add: computeCellValue_def)
  qed
qed

lemma computable_related:
  assumes "related P s s'" and "\<And>r c u u'. P r c u u' \<Longrightarrow> formula u' = formula u"
    and "computable s k"
  shows "computable s' k"
proof -
  from assms(3) obtain r c x where g: "getCellRowCol k = Inr (r, c, None)" and x: "cellAt s r c = Inr x"
    and p: "parses (formula x)" and e: "\<forall>p \<in> edges (formula x). inGrid s (fst p) (snd p)"
    by (auto simp: computable_def)
  from related_fwd [OF assms(1) x] obtain x' where x': "cellAt s' r c = Inr x'" and "P r c x x'"
    by blast
  with assms(2) have f: "formula x' = formula x" by simp
  from e have "\<forall>p \<in> edges (formula x). inGrid s' (fst p) (snd p)"
    by (simp add: related_inGrid [OF assms(1)])
  with g x' f p show ?thesis by (auto simp: computable_def)
qed

lemma recompute_ok: "(\<And>k. k \<in> set ks \<Longrightarrow> computable s k) \<Longrightarrow> \<exists>s'. recompute ks s = Inr s'"
proof (induction ks arbitrary: s)
  case Nil
  then show ?case by simp
next
  case (Cons k ks)
  from Cons.prems have "computable s k" by simp
  from computeCellValue_ok [OF this] obtain s1 where c: "computeCellValue s k = Inr s1" by blast
  have "\<And>j. j \<in> set ks \<Longrightarrow> computable s1 j"
    by (rule computable_related [OF computeCellValue_related [OF c]])
       (use Cons.prems in \<open>auto simp: onlyValue_def\<close>)
  from Cons.IH [OF this] c show ?case by simp
qed

lemma rectangular_related: "related P s s' \<Longrightarrow> rectangular s \<Longrightarrow> rectangular s'"
  by (simp add: rectangular_def related_shape)

lemma GetCellValue_inGrid:
  assumes "rectangular s" and "getCellRowCol k = Inr (r, c, None)" and "cellAt s r c = Inr x"
  shows "GetCellValue s k = Inr (value x, None)"
proof -
  from assms(3) have g: "0 \<le> r" "nat r < length (cells s)" "0 \<le> c" "nat c < length (cells s ! nat r)"
    by (auto simp: cellAt_def split: if_splits)
  then obtain row0 rest where c: "cells s = row0 # rest" by (cases "cells s") auto
  have "length row0 \<in> set (shape s)" using c by (simp add: shape_def)
  moreover have "length (cells s ! nat r) \<in> set (shape s)"
    using g(2) by (auto simp: shape_def)
  ultimately have e: "length row0 = length (cells s ! nat r)"
    using assms(1) by (simp add: rectangular_def)
  from g have 1: "\<not> int (length (cells s)) \<le> r" by linarith
  from g e have 2: "\<not> int (length row0) \<le> c" by linarith
  show ?thesis
    unfolding GetCellValue_def using assms(2,3) 1 2 c by simp
qed

subsection \<open>Reachable sheets are well formed\<close>

lemma Atoi_first:
  assumes "Atoi (c # r) = Some n"
  shows "(of_char c :: nat) = 43 \<or> (of_char c :: nat) = 45 \<or> isDigit c"
proof (cases "c = CHR ''-'' \<or> c = CHR ''+''")
  case True
  then show ?thesis by auto
next
  case False
  with assms have "list_all isDigit (c # r)"
    by (auto simp: Atoi_def Let_def split: if_splits)
  then show ?thesis by simp
qed

lemma Atoi_not_allSpace:
  assumes "Atoi v = Some n"
  shows "\<not> allSpace v"
proof (cases v rule: allSpace.cases)
  case 1
  with assms show ?thesis by (simp add: Atoi_def)
next
  case (2 a)
  with assms have "isDigit a" by (auto simp: Atoi_def Let_def split: if_splits)
  with 2 show ?thesis by (auto simp: asciiSpace_def isDigit_def)
next
  case (3 a b)
  with assms Atoi_first [of a "[b]" n] show ?thesis
    by (auto simp: asciiSpace_def space2_def isDigit_def)
next
  case (4 a b c cs)
  with assms Atoi_first [of a "b # c # cs" n] show ?thesis
    by (auto simp: asciiSpace_def space2_def space3_def Let_def isDigit_def)
qed

lemma SetCellValue_effect:
  assumes i: "SetCellValue order s cid v = Inr (None, s')" and g: "getCellRowCol cid = Inr (r, c, None)"
    and v': "v' = (if allSpace v then ''0'' else v)"
    and n: "newF = (case Atoi v' of Some n \<Rightarrow> None | None \<Rightarrow> Some v')"
  shows "\<exists>x s2. cellAt s r c = Inr x \<and> parses (formula x) \<and> parses newF
           \<and> (\<forall>p \<in> edges newF. inGrid s (fst p) (snd p))
           \<and> install s cid v = Inr (None, s2)
           \<and> related (installed cid r c (edges (formula x)) (edges newF) newF (Atoi v')) s s2
           \<and> related (untouched order) s2 s'"
proof -
  from i obtain s2 where i2: "install s cid v = Inr (None, s2)" and r: "recompute order s2 = Inr s'"
    by (auto simp: SetCellValue_def split: sum.splits option.splits)
  from install_effect [OF i2 g v' n] recompute_related [OF r] i2 show ?thesis by blast
qed

lemma wellFormed_preserved:
  assumes wf: "wellFormed s" and can: "canonicalId cid" and g: "getCellRowCol cid = Inr (r, c, None)"
    and x: "cellAt s r c = Inr x" and pn: "parses newF"
    and en: "\<forall>p \<in> edges newF. inGrid s (fst p) (snd p)"
    and R: "related (installed cid r c (edges (formula x)) (edges newF) newF lit) s s2"
    and U: "related (untouched ks) s2 s'"
  shows "wellFormed s'"
proof -
  define Q :: "int \<Rightarrow> int \<Rightarrow> Cell \<Rightarrow> Cell \<Rightarrow> bool" where "Q = (\<lambda>r' c' u u'.
      dependentCells u' = (if (r', c') \<in> edges newF then insert cid (dependentCells u)
                           else if (r', c') \<in> edges (formula x) then dependentCells u - {cid}
                           else dependentCells u)
      \<and> formula u' = (if r' = r \<and> c' = c then newF else formula u))"
  have RQ: "related Q s s'"
    by (rule related_trans [OF R U]) (auto simp: Q_def installed_def untouched_def split: if_splits)
  have grid: "\<And>r' c'. inGrid s' r' c' = inGrid s r' c'" by (rule related_inGrid [OF RQ])
  from wf have W0: "rectangular s"
    and W1: "\<And>r c x. cellAt s r c = Inr x \<Longrightarrow>
               parses (formula x) \<and> (\<forall>p \<in> edges (formula x). inGrid s (fst p) (snd p))"
    and W2: "\<And>r c x k. cellAt s r c = Inr x \<Longrightarrow> k \<in> dependentCells x \<Longrightarrow>
               canonicalId k \<and> (\<exists>rk ck y. getCellRowCol k = Inr (rk, ck, None)
                  \<and> cellAt s rk ck = Inr y \<and> (r, c) \<in> edges (formula y))"
    by (auto simp: wellFormed_def)
  from related_fwd [OF RQ x] obtain x' where x': "cellAt s' r c = Inr x'" and fx': "formula x' = newF"
    by (auto simp: Q_def)
  have 0: "rectangular s'" using RQ W0 by (rule rectangular_related)
  have 1: "parses (formula u') \<and> (\<forall>p \<in> edges (formula u'). inGrid s' (fst p) (snd p))"
    if u': "cellAt s' r' c' = Inr u'" for r' c' u'
  proof -
    from related_bwd [OF RQ u'] obtain u where u: "cellAt s r' c' = Inr u" and q: "Q r' c' u u'"
      by blast
    show ?thesis
    proof (cases "r' = r \<and> c' = c")
      case True
      with q have "formula u' = newF" by (simp add: Q_def)
      with pn en show ?thesis by (simp add: grid)
    next
      case False
      with q have "formula u' = formula u" by (auto simp: Q_def)
      with W1 [OF u] show ?thesis by (simp add: grid)
    qed
  qed
  have 2: "canonicalId k \<and> (\<exists>rk ck y. getCellRowCol k = Inr (rk, ck, None)
                  \<and> cellAt s' rk ck = Inr y \<and> (r', c') \<in> edges (formula y))"
    if u': "cellAt s' r' c' = Inr u'" and k: "k \<in> dependentCells u'" for r' c' u' k
  proof -
    from related_bwd [OF RQ u'] obtain u where u: "cellAt s r' c' = Inr u" and q: "Q r' c' u u'"
      by blast
    show ?thesis
    proof (cases "k = cid")
      case True
      have "(r', c') \<in> edges newF"
      proof (rule ccontr)
        assume no: "(r', c') \<notin> edges newF"
        with q k True have ku: "cid \<in> dependentCells u" and old: "(r', c') \<notin> edges (formula x)"
          by (auto simp: Q_def split: if_splits)
        from W2 [OF u ku] g x have "(r', c') \<in> edges (formula x)" by auto
        with old show False by simp
      qed
      with True can g x' fx' show ?thesis by auto
    next
      case False
      with q k have ku: "k \<in> dependentCells u" by (auto simp: Q_def split: if_splits)
      from W2 [OF u ku] obtain rk ck y where ck: "canonicalId k"
        and gk: "getCellRowCol k = Inr (rk, ck, None)" and y: "cellAt s rk ck = Inr y"
        and e: "(r', c') \<in> edges (formula y)" by blast
      have ne: "\<not> (rk = r \<and> ck = c)"
      proof
        assume "rk = r \<and> ck = c"
        with gk g have "getCellRowCol k = getCellRowCol cid" by simp
        from canonicalId_inj [OF ck can this] False show False by simp
      qed
      from related_fwd [OF RQ y] obtain y' where y': "cellAt s' rk ck = Inr y'" and "Q rk ck y y'"
        by blast
      with ne have "formula y' = formula y" by (auto simp: Q_def)
      with ck gk y' e show ?thesis by auto
    qed
  qed
  from 0 1 2 show ?thesis unfolding wellFormed_def by blast
qed

lemma CreateSpreadSheet_Inr:
  assumes "CreateSpreadSheet numRows numCols = Inr s"
  shows "\<exists>i n. s = \<lparr>cells = newRows i n\<rparr>"
  using assms by (auto simp: CreateSpreadSheet_def Let_def split: if_splits)

lemma wellFormed_new:
  assumes "CreateSpreadSheet numRows numCols = Inr s"
  shows "wellFormed s"
proof -
  from CreateSpreadSheet_Inr [OF assms] obtain i n where s: "s = \<lparr>cells = newRows i n\<rparr>" by blast
  have "set (shape s) \<subseteq> {n}"
    unfolding s shape_def by (auto dest!: set_newRows simp: length_newRow)
  then have 0: "rectangular s" by (auto simp: rectangular_def)
  have c: "\<And>r c x. cellAt s r c = Inr x \<Longrightarrow> x = newCell"
    unfolding s by (auto simp: cellAt_newRows split: if_splits)
  show ?thesis
    unfolding wellFormed_def using 0 by (auto dest!: c simp: newCell_def)
qed

lemma reachable_wellFormed: "reachable s \<Longrightarrow> wellFormed s"
proof (induction rule: reachable.induct)
  case (new numRows numCols s)
  then show ?case by (rule wellFormed_new)
next
  case (set s cid order v e s')
  show ?case
  proof (cases e)
    case (Some err)
    with set.hyps(4) have "install s cid v = Inr (Some err, s')"
      by (auto simp: SetCellValue_def split: sum.splits option.splits)
    from install_error [OF this] set.IH show ?thesis by simp
  next
    case None
    from canonicalId_resolves [OF set.hyps(2)] obtain r c where
      g: "getCellRowCol cid = Inr (r, c, None)" by blast
    from SetCellValue_effect [OF set.hyps(4) [unfolded None] g refl refl]
    obtain x s2 where "cellAt s r c = Inr x"
      "parses (case Atoi (if allSpace v then ''0'' else v) of None \<Rightarrow> Some (if allSpace v then ''0'' else v) | Some n \<Rightarrow> None)"
      "\<forall>p \<in> edges (case Atoi (if allSpace v then ''0'' else v) of None \<Rightarrow> Some (if allSpace v then ''0'' else v) | Some n \<Rightarrow> None). inGrid s (fst p) (snd p)"
      "related (installed cid r c (edges (formula x))
         (edges (case Atoi (if allSpace v then ''0'' else v) of None \<Rightarrow> Some (if allSpace v then ''0'' else v) | Some n \<Rightarrow> None))
         (case Atoi (if allSpace v then ''0'' else v) of None \<Rightarrow> Some (if allSpace v then ''0'' else v) | Some n \<Rightarrow> None)
         (Atoi (if allSpace v then ''0'' else v))) s s2"
      "related (untouched order) s2 s'"
      by blast
    from wellFormed_preserved [OF set.IH set.hyps(2) g this] show ?thesis .
  qed
qed

subsection \<open>Storing an integer\<close>

lemma install_literal_ok:
  assumes wf: "wellFormed s" and g: "getCellRowCol cid = Inr (r, c, None)"
    and x: "cellAt s r c = Inr x" and a: "Atoi v = Some n"
  shows "\<exists>s2. install s cid v = Inr (None, s2)"
proof -
  from Atoi_not_allSpace [OF a] have ns: "\<not> allSpace v" .
  from wf x have p: "parses (formula x)" and e: "\<forall>p \<in> edges (formula x). inGrid s (fst p) (snd p)"
    by (auto simp: wellFormed_def)
  have "\<exists>s1. (case formula x of None \<Rightarrow> Inr s | Some f \<Rightarrow> deleteDependees s cid f) = Inr s1"
  proof (cases "formula x")
    case None
    then show ?thesis by simp
  next
    case (Some f)
    with p obtain ids where ids: "getCellIdsFromFormula f = Inr ids"
      by (auto simp: parses_def split: sum.splits)
    with e Some have "\<And>i. i \<in> set ids \<Longrightarrow> inGrid s (row i) (col i)"
      by (auto simp: edges_def positions_def)
    from deleteLoop_ok [OF this] Some ids show ?thesis by (simp add: deleteDependees_def)
  qed
  then obtain s1 where d: "(case formula x of None \<Rightarrow> Inr s | Some f \<Rightarrow> deleteDependees s cid f) = Inr s1"
    by blast
  from related_fwd [OF conjunct2 [OF deleteStep_related [OF d]] x]
  obtain x1 where x1: "cellAt s1 r c = Inr x1" by blast
  then have u: "updCell s1 r c (\<lambda>x. x\<lparr>value := n, formula := None\<rparr>) = Inr (setCell s1 r c (x1\<lparr>value := n, formula := None\<rparr>))"
    by (simp add: updCell_def)
  have y: "cellAt (setCell s1 r c (x1\<lparr>value := n, formula := None\<rparr>)) r c = Inr (x1\<lparr>value := n, formula := None\<rparr>)"
    by (simp add: cellAt_setCell [OF x1])
  show ?thesis
    using g x d ns a u y by (simp add: install_def installValue_def)
qed

lemma wellFormed_no_literal_key:
  assumes wf: "wellFormed s" and g: "getCellRowCol cid = Inr (r, c, None)"
    and y: "cellAt s r c = Inr y" and u: "cellAt s r' c' = Inr u" and k: "cid \<in> dependentCells u"
  shows "(r', c') \<in> edges (formula y)"
proof -
  from wf u k obtain rk ck yk where "getCellRowCol cid = Inr (rk, ck, None)"
    and "cellAt s rk ck = Inr yk" and "(r', c') \<in> edges (formula yk)"
    unfolding wellFormed_def by blast
  with g y show ?thesis by simp
qed

lemma deleteDependees_strips:
  assumes wf: "wellFormed s" and g: "getCellRowCol cid = Inr (r, c, None)"
    and x: "cellAt s r c = Inr x" and f: "formula x = Some f"
  shows "\<exists>s1. deleteDependees s cid f = Inr s1
           \<and> (\<forall>r' c' u. cellAt s1 r' c' = Inr u \<longrightarrow> cid \<notin> dependentCells u)"
proof -
  from wf x have p: "parses (formula x)" and e: "\<forall>p \<in> edges (formula x). inGrid s (fst p) (snd p)"
    by (auto simp: wellFormed_def)
  from p f obtain ids where ids: "getCellIdsFromFormula f = Inr ids"
    by (auto simp: parses_def split: sum.splits)
  with e f have "\<And>i. i \<in> set ids \<Longrightarrow> inGrid s (row i) (col i)"
    by (auto simp: edges_def positions_def)
  from deleteLoop_ok [OF this] obtain s1 where l: "deleteLoop cid ids s = Inr s1" by blast
  with ids have d: "deleteDependees s cid f = Inr s1" by (simp add: deleteDependees_def)
  then have d': "(case formula x of None \<Rightarrow> Inr s | Some f \<Rightarrow> deleteDependees s cid f) = Inr s1"
    using f by simp
  note R = conjunct2 [OF deleteStep_related [OF d']]
  have "cid \<notin> dependentCells u1" if u1: "cellAt s1 r' c' = Inr u1" for r' c' u1
  proof
    assume k: "cid \<in> dependentCells u1"
    from related_bwd [OF R u1] obtain u where u: "cellAt s r' c' = Inr u"
      and q: "u1 = (if (r', c') \<in> edges (formula x)
                    then u\<lparr>dependentCells := dependentCells u - {cid}\<rparr> else u)" by blast
    from q k have ku: "cid \<in> dependentCells u" and no: "(r', c') \<notin> edges (formula x)"
      by (auto split: if_splits)
    from wellFormed_no_literal_key [OF wf g x u ku] no show False by simp
  qed
  with d show ?thesis by blast
qed

lemma literal_cell_kept:
  assumes wf: "wellFormed s" and can: "canonicalId cid" and g: "getCellRowCol cid = Inr (r, c, None)"
    and y: "cellAt s r c = Inr y" and fy: "formula y = None"
    and can2: "canonicalId cid2" and ne: "cid2 \<noteq> cid"
    and ro: "rangeOrder order s cid2 v" and S: "SetCellValue order s cid2 v = Inr (None, s')"
  shows "(\<forall>k \<in> set order. getCellRowCol k \<noteq> Inr (r, c, None))
       \<and> (\<exists>y'. cellAt s' r c = Inr y' \<and> value y' = value y \<and> formula y' = None)"
proof -
  from canonicalId_resolves [OF can2] obtain r2 c2 where
    g2: "getCellRowCol cid2 = Inr (r2, c2, None)" by blast
  have ne2: "\<not> (r = r2 \<and> c = c2)"
  proof
    assume "r = r2 \<and> c = c2"
    with g g2 have "getCellRowCol cid2 = getCellRowCol cid" by simp
    from canonicalId_inj [OF can2 can this] ne show False by simp
  qed
  from SetCellValue_effect [OF S g2 refl refl] obtain x s2 E F L where
    x: "cellAt s r2 c2 = Inr x" and i: "install s cid2 v = Inr (None, s2)"
    and R: "related (installed cid2 r2 c2 (edges (formula x)) E F L) s s2"
    and U: "related (untouched order) s2 s'"
    by blast
  from related_fwd [OF R x] obtain x2 where x2: "cellAt s2 r2 c2 = Inr x2"
    and dx: "dependentCells x2 \<subseteq> insert cid2 (dependentCells x)"
    by (auto simp: installed_def split: if_splits)
  from ro i g2 x2 have keys: "set order = dependentCells x2"
    by (simp add: rangeOrder_def loopKeys_def)
  have nokey: "cid \<notin> dependentCells u" if "cellAt s r' c' = Inr u" for r' c' u
    using wellFormed_no_literal_key [OF wf g y that] fy by auto
  have other: "getCellRowCol k \<noteq> Inr (r, c, None)" if k: "k \<in> set order" for k
  proof (cases "k = cid2")
    case True
    with g2 ne2 show ?thesis by auto
  next
    case False
    with k keys dx have kx: "k \<in> dependentCells x" by auto
    with nokey [OF x] have "k \<noteq> cid" by auto
    moreover from wf x kx have "canonicalId k" unfolding wellFormed_def by blast
    ultimately show ?thesis using canonicalId_inj [OF _ can] g by auto
  qed
  from related_fwd [OF R y] ne2 obtain y2 where y2: "cellAt s2 r c = Inr y2"
    and "value y2 = value y" "formula y2 = formula y"
    by (auto simp: installed_def)
  moreover from related_fwd [OF U y2] other have "cellAt s' r c = Inr y2"
    by (auto simp: untouched_def)
  ultimately show ?thesis using other fy by auto
qed

subsection \<open>Ranges and sums\<close>














subsection \<open>The first two cells of a new sheet\<close>

lemma newRow_Suc: "newRow (Suc j) = newCell # newRow j"
  by (induction j) simp_all

lemma newRows_Suc: "newRows (Suc i) n = newRow n # newRows i n"
  by (induction i) simp_all

lemma distinct_singleton:
  assumes "distinct xs" and "set xs = {a}"
  shows "xs = [a]"
proof (cases xs)
  case Nil
  with assms(2) show ?thesis by simp
next
  case (Cons x ys)
  with assms(2) have x: "x = a" by auto
  have "ys = []"
  proof (cases ys)
    case (Cons y zs)
    with assms \<open>xs = x # ys\<close> x have "y \<in> {a}" "y \<noteq> a" by auto
    then show ?thesis by simp
  qed simp
  with Cons x show ?thesis by simp
qed

lemma CreateSpreadSheet_two_cells:
  assumes "1 \<le> numRows" and "24 * numRows \<le> maxAlloc" and "2 \<le> numCols"
  shows "\<exists>rr rows. CreateSpreadSheet numRows numCols = Inr \<lparr>cells = (newCell # newCell # rr) # rows\<rparr>"
proof -
  let ?n = "nat (if numCols > 26 then 26 else numCols)"
  from assms have "nat numRows = Suc (nat numRows - 1)" by linarith
  then obtain i where i: "nat numRows = Suc i" ..
  from assms have "2 \<le> ?n" by auto
  then have "?n = Suc (Suc (?n - 2))" by linarith
  then obtain j where j: "?n = Suc (Suc j)" ..
  have "CreateSpreadSheet numRows numCols = Inr \<lparr>cells = newRows (nat numRows) ?n\<rparr>"
    using assms by (auto simp: CreateSpreadSheet_def Let_def maxAlloc_def)
  also have "newRows (nat numRows) ?n = (newCell # newCell # newRow j) # newRows i ?n"
    unfolding i newRows_Suc unfolding j newRow_Suc ..
  finally show ?thesis by blast
qed

lemma parse_facts:
  "getCellRowCol ''A1'' = Inr (0, 0, None)"
  "getCellRowCol ''B1'' = Inr (0, 1, None)"
  "Atoi ''=B1'' = None" "Atoi ''=A1'' = None"
  "allSpace ''=B1'' = False" "allSpace ''=A1'' = False"
  "getCellIdsFromFormula ''=B1'' = Inr [\<lparr>row = 0, col = 1, sign = ''+'', val = None\<rparr>]"
  "getCellIdsFromFormula ''=A1'' = Inr [\<lparr>row = 0, col = 0, sign = ''+'', val = None\<rparr>]"
  by code_simp+

lemmas eval_defs = SetCellValue_def install_def installValue_def computeCellValue_def
  addDependees_def deleteDependees_def updCell_def cellAt_def setCell_def rangeOrder_def
  loopKeys_def Let_def newCell_def wrap64_def

section \<open>The claims\<close>

text \<open>
  Claim C1. After a successful \<^verbatim>\<open>SetCellValue\<close> every cell should hold the value of
  its formula, also a cell that depends on the changed one through another cell. The
  code recomputes the direct dependents only, once each, in the order of the map. With
  \<^verbatim>\<open>D1 = "=C2+1"\<close> and \<^verbatim>\<open>C2 = "=A1"\<close> on a sheet of 3 rows and 4 columns, the dependents
  of A1 are C2 and D1 (D1 because of its literal term); when the loop of
  \<^verbatim>\<open>SetCellValue("A1","99")\<close> visits D1 before C2, C2 becomes 99 and D1 stays 1, where
  its formula gives 100. With \<^verbatim>\<open>D1 = "=C2"\<close> the only dependent of A1 is C2, and D1
  stays 0 where its formula gives 99. Each tuple below lists what \<^verbatim>\<open>GetCellValue\<close>
  returns for A1, C2 and D1 after the three calls, and what it returns for D1 once
  \<^verbatim>\<open>computeCellValue("D1")\<close> has evaluated the formula of D1 again.
\<close>

theorem SetCellValue_chain_left_stale:
  "map_option (\<lambda>s. (GetCellValue s ''A1'', GetCellValue s ''C2'', GetCellValue s ''D1'',
                      case computeCellValue s ''D1'' of
                        Inl a \<Rightarrow> Inl a
                      | Inr s' \<Rightarrow> GetCellValue s' ''D1''))
     (session 3 4 [([], ''D1'', ''=C2+1''), ([''D1''], ''C2'', ''=A1''),
                   ([''D1'', ''C2''], ''A1'', ''99'')])
     = Some (Inr (99, None), Inr (99, None), Inr (1, None), Inr (100, None))
   \<and> map_option (\<lambda>s. (GetCellValue s ''A1'', GetCellValue s ''C2'', GetCellValue s ''D1'',
                      case computeCellValue s ''D1'' of
                        Inl a \<Rightarrow> Inl a
                      | Inr s' \<Rightarrow> GetCellValue s' ''D1''))
     (session 3 4 [([], ''D1'', ''=C2''), ([''D1''], ''C2'', ''=A1''), ([''C2''], ''A1'', ''99'')])
     = Some (Inr (99, None), Inr (99, None), Inr (0, None), Inr (99, None))"
  by code_simp

text \<open>
  Claim C2 as stated fails: on a sheet of 3 rows and 3 columns, after
  \<^verbatim>\<open>SetCellValue("A1","=B1")\<close> the call \<^verbatim>\<open>SetCellValue("B1","=A1")\<close> returns no error and
  B1, which had no formula, holds the formula \<^verbatim>\<open>=A1\<close>.
\<close>

theorem SetCellValue_cycle_counterexample:
  "map_option (\<lambda>s. cellAt s 0 1) (session 3 3 [([], ''A1'', ''=B1'')])
     = Some (Inr \<lparr>dependentCells = {''A1''}, value = 0, formula = None\<rparr>)
   \<and> map_option (\<lambda>s. cellAt s 0 1) (session 3 3 [([], ''A1'', ''=B1''), ([''A1''], ''B1'', ''=A1'')])
     = Some (Inr \<lparr>dependentCells = {''A1''}, value = 0, formula = Some ''=A1''\<rparr>)"
  by code_simp

text \<open>
  Claim C2, as amended. \<^verbatim>\<open>SetCellValue\<close> does not detect a circular dependency (the
  header of the source assumes there is none). On a new sheet of at least one row and
  two columns (and of a number of rows that \<^verbatim>\<open>make\<close> accepts), after \<^verbatim>\<open>SetCellValue("A1","=B1")\<close> has returned \<^verbatim>\<open>nil\<close>, the call
  \<^verbatim>\<open>SetCellValue("B1","=A1")\<close> returns \<^verbatim>\<open>nil\<close> as well: its loop visits A1, the one
  dependent of B1, once; B1 keeps the value 0 and now holds the formula \<^verbatim>\<open>=A1\<close>, and each
  of A1 and B1 is among the dependents of the other.
\<close>

theorem SetCellValue_installs_cycle:
  assumes "1 \<le> numRows" and "24 * numRows \<le> maxAlloc" and "2 \<le> numCols"
  shows "\<exists>s0 s1 s2. CreateSpreadSheet numRows numCols = Inr s0
           \<and> rangeOrder [] s0 ''A1'' ''=B1''
           \<and> SetCellValue [] s0 ''A1'' ''=B1'' = Inr (None, s1)
           \<and> cellAt s1 0 1 = Inr \<lparr>dependentCells = {''A1''}, value = 0, formula = None\<rparr>
           \<and> (\<forall>order. rangeOrder order s1 ''B1'' ''=A1'' \<longrightarrow> order = [''A1''])
           \<and> rangeOrder [''A1''] s1 ''B1'' ''=A1''
           \<and> SetCellValue [''A1''] s1 ''B1'' ''=A1'' = Inr (None, s2)
           \<and> cellAt s2 0 1 = Inr \<lparr>dependentCells = {''A1''}, value = 0, formula = Some ''=A1''\<rparr>
           \<and> cellAt s2 0 0 = Inr \<lparr>dependentCells = {''B1''}, value = 0, formula = Some ''=B1''\<rparr>"
proof -
  from CreateSpreadSheet_two_cells [OF assms] obtain rr rows where
    c: "CreateSpreadSheet numRows numCols = Inr \<lparr>cells = (newCell # newCell # rr) # rows\<rparr>"
    by blast
  let ?s0 = "\<lparr>cells = (newCell # newCell # rr) # rows\<rparr>"
  let ?a1 = "\<lparr>dependentCells = {}, value = 0, formula = Some ''=B1''\<rparr>"
  let ?b1 = "\<lparr>dependentCells = {''A1''}, value = 0, formula = None\<rparr>"
  let ?s1 = "\<lparr>cells = (?a1 # ?b1 # rr) # rows\<rparr>"
  let ?a2 = "\<lparr>dependentCells = {''B1''}, value = 0, formula = Some ''=B1''\<rparr>"
  let ?b2 = "\<lparr>dependentCells = {''A1''}, value = 0, formula = Some ''=A1''\<rparr>"
  let ?s2 = "\<lparr>cells = (?a2 # ?b2 # rr) # rows\<rparr>"
  have i1: "install ?s0 ''A1'' ''=B1'' = Inr (None, ?s1)"
    by (simp add: parse_facts eval_defs del: allSpace.simps)
  have r1: "rangeOrder [] ?s0 ''A1'' ''=B1''"
    by (simp add: rangeOrder_def i1 parse_facts loopKeys_def cellAt_def)
  have S1: "SetCellValue [] ?s0 ''A1'' ''=B1'' = Inr (None, ?s1)"
    by (simp add: SetCellValue_def i1)
  have b1: "cellAt ?s1 0 1 = Inr ?b1" by (simp add: cellAt_def)
  have i2: "install ?s1 ''B1'' ''=A1'' = Inr (None, ?s2)"
    by (simp add: parse_facts eval_defs del: allSpace.simps)
  have k2: "loopKeys ?s2 ''B1'' = {''A1''}"
    by (simp add: parse_facts loopKeys_def cellAt_def)
  have u2: "\<forall>order. rangeOrder order ?s1 ''B1'' ''=A1'' \<longrightarrow> order = [''A1'']"
    by (auto simp: rangeOrder_def i2 k2 intro: distinct_singleton)
  have r2: "rangeOrder [''A1''] ?s1 ''B1'' ''=A1''"
    by (simp add: rangeOrder_def i2 k2)
  have c2: "computeCellValue ?s2 ''A1'' = Inr ?s2"
    by (simp add: parse_facts eval_defs del: allSpace.simps)
  have S2: "SetCellValue [''A1''] ?s1 ''B1'' ''=A1'' = Inr (None, ?s2)"
    by (simp add: SetCellValue_def i2 c2)
  have a2: "cellAt ?s2 0 0 = Inr ?a2" and b2: "cellAt ?s2 0 1 = Inr ?b2"
    by (simp_all add: cellAt_def)
  from c r1 S1 b1 u2 r2 S2 b2 a2 show ?thesis by blast
qed

theorem SetCellValue_installs_cycle_witness:
  "\<exists>s0 s1 s2. CreateSpreadSheet 3 3 = Inr s0
           \<and> SetCellValue [] s0 ''A1'' ''=B1'' = Inr (None, s1)
           \<and> rangeOrder [''A1''] s1 ''B1'' ''=A1''
           \<and> SetCellValue [''A1''] s1 ''B1'' ''=A1'' = Inr (None, s2)
           \<and> cellAt s2 0 1 = Inr \<lparr>dependentCells = {''A1''}, value = 0, formula = Some ''=A1''\<rparr>
           \<and> cellAt s2 0 0 = Inr \<lparr>dependentCells = {''B1''}, value = 0, formula = Some ''=B1''\<rparr>"
proof -
  have "(1::int) \<le> 3" and "24 * (3::int) \<le> maxAlloc" and "(2::int) \<le> 3"
    by (simp_all add: maxAlloc_def)
  from SetCellValue_installs_cycle [OF this] show ?thesis by blast
qed

text \<open>
  Claim C3 as stated fails: \<^verbatim>\<open>=B1:foo\<close> is not an integer and its token \<^verbatim>\<open>B1:foo\<close> is
  neither an integer nor a range whose ends resolve, yet \<^verbatim>\<open>SetCellValue("A1","=B1:foo")\<close>
  returns no error and stores the formula with value 0; and \<^verbatim>\<open>SetCellValue("A1","=foo")\<close>
  is an index out of range, not a returned error.
\<close>

theorem SetCellValue_parse_error_counterexample:
  "Atoi ''=B1:foo'' = None \<and> Atoi ''B1:foo'' = None
   \<and> getCellRowCol ''foo'' = Inr (- 1, - 1, Some InvalidColNumber)
   \<and> map_option (\<lambda>s. cellAt s 0 0) (session 3 3 [([], ''A1'', ''=B1:foo'')])
     = Some (Inr \<lparr>dependentCells = {}, value = 0, formula = Some ''=B1:foo''\<rparr>)
   \<and> (case CreateSpreadSheet 3 3 of Inl a \<Rightarrow> Inl a | Inr s \<Rightarrow> SetCellValue [] s ''A1'' ''=foo'')
     = Inl IndexOutOfRange"
  by code_simp

text \<open>
  Claim C3, as amended. \<^verbatim>\<open>SetCellValue\<close> never reports a parse error. When it returns
  an error, the error is one of the two of \<^verbatim>\<open>getCellRowCol\<close> for the target identifier,
  the sheet is left as it was, and the same call with any other value returns the same
  error: the value is not looked at.
\<close>

theorem SetCellValue_returns_no_parse_error:
  assumes "SetCellValue order sheet cellId v = Inr (Some e, sheet')"
  shows "sheet' = sheet \<and> getCellRowCol cellId = Inr (- 1, - 1, Some e)
       \<and> (e = InvalidColNumber \<or> e = InvalidRowNumber)
       \<and> SetCellValue order' sheet cellId v' = Inr (Some e, sheet)"
proof -
  from assms have i: "install sheet cellId v = Inr (Some e, sheet')"
    by (auto simp: SetCellValue_def split: sum.splits option.splits)
  from install_error [OF i] have 1: "sheet' = sheet" "getCellRowCol cellId = Inr (- 1, - 1, Some e)"
    "e = InvalidColNumber \<or> e = InvalidRowNumber" by simp_all
  from 1(2) have "install sheet cellId v' = Inr (Some e, sheet)" by (simp add: install_def)
  then have "SetCellValue order' sheet cellId v' = Inr (Some e, sheet)"
    by (simp add: SetCellValue_def)
  with 1 show ?thesis by simp
qed

theorem SetCellValue_returns_no_parse_error_witness:
  "\<exists>sheet. CreateSpreadSheet 3 3 = Inr sheet
     \<and> SetCellValue [] sheet ''a1'' ''=foo'' = Inr (Some InvalidColNumber, sheet)
     \<and> getCellRowCol ''a1'' = Inr (- 1, - 1, Some InvalidColNumber)
     \<and> SetCellValue [] sheet ''a1'' ''7'' = Inr (Some InvalidColNumber, sheet)"
proof -
  obtain sheet where s: "CreateSpreadSheet 3 3 = Inr sheet" using fresh33 by simp
  have g: "getCellRowCol ''a1'' = Inr (- 1, - 1, Some InvalidColNumber)" by code_simp
  then have c: "SetCellValue [] sheet ''a1'' ''=foo'' = Inr (Some InvalidColNumber, sheet)"
    by (simp add: SetCellValue_def install_def)
  from SetCellValue_returns_no_parse_error [OF c, of "[]" "''7''"] s c show ?thesis by blast
qed

text \<open>
  Claim C4. A cell should be among the dependents of X only when its formula refers
  to X, and a literal term should add no edge. In the code a literal term keeps row 0
  and column 0, and \<^verbatim>\<open>addDependees\<close> does not skip it: after \<^verbatim>\<open>SetCellValue("B2","=5")\<close>
  on a new sheet of 3 rows and 3 columns, B2 is among the dependents of A1.
\<close>

theorem addDependees_literal_adds_edge:
  "getCellIdsFromFormula ''=5'' = Inr [\<lparr>row = 0, col = 0, sign = ''+'', val = Some 5\<rparr>]
   \<and> map_option (\<lambda>s. (cellAt s 0 0, cellAt s 1 1)) (session 3 3 [([], ''B2'', ''=5'')])
     = Some (Inr \<lparr>dependentCells = {''B2''}, value = 0, formula = None\<rparr>,
             Inr \<lparr>dependentCells = {}, value = 5, formula = Some ''=5''\<rparr>)"
  by code_simp

text \<open>
  Claim C5. For a cell identifier whose first byte is a capital letter and whose rest
  spells the integer \<open>n\<close>, \<^verbatim>\<open>getCellRowCol\<close> returns row \<open>n - 1\<close> (computed in 64
  bits) and the letter's column with no error, whatever \<open>n\<close> is; \<^verbatim>\<open>SetCellValue\<close>
  then indexes the grid at that row unchecked, so for \<open>n \<le> 0\<close> or a row at or beyond
  the number of rows the call is an index out of range and no error is returned.
  (The length of a Go slice is below \<open>2 ^ 63\<close>.)
\<close>

theorem SetCellValue_indexes_unchecked_row:
  assumes "65 \<le> (of_char c :: nat)" and "(of_char c :: nat) \<le> 90" and "Atoi rest = Some n"
  shows "getCellRowCol (c # rest) = Inr (wrap64 (n - 1), int (of_char c) - 65, None)
       \<and> (- (2 ^ 63) < n \<longrightarrow> wrap64 (n - 1) = n - 1)
       \<and> (int (length (cells sheet)) < 2 ^ 63 \<and> (n \<le> 0 \<or> int (length (cells sheet)) \<le> n - 1)
            \<longrightarrow> SetCellValue order sheet (c # rest) v = Inl IndexOutOfRange)"
proof (intro conjI impI)
  show g: "getCellRowCol (c # rest) = Inr (wrap64 (n - 1), int (of_char c) - 65, None)"
    using assms by (rule getCellRowCol_letter)
  from Atoi_range [OF assms(3)] have rng: "- (2 ^ 63) \<le> n" "n < 2 ^ 63" by simp_all
  show "wrap64 (n - 1) = n - 1" if "- (2 ^ 63) < n"
    using that rng by (intro wrap64_id) simp_all
  show "SetCellValue order sheet (c # rest) v = Inl IndexOutOfRange"
    if h: "int (length (cells sheet)) < 2 ^ 63 \<and> (n \<le> 0 \<or> int (length (cells sheet)) \<le> n - 1)"
  proof (cases "n = - (2 ^ 63)")
    case True
    then have "wrap64 (n - 1) = 2 ^ 63 - 1" by (simp add: wrap64_def)
    with h have "int (length (cells sheet)) \<le> wrap64 (n - 1)" by simp
    with g show ?thesis by (intro SetCellValue_row_out_of_range) auto
  next
    case False
    with rng have "wrap64 (n - 1) = n - 1" by (intro wrap64_id) simp_all
    with h have "wrap64 (n - 1) < 0 \<or> int (length (cells sheet)) \<le> wrap64 (n - 1)" by auto
    with g show ?thesis by (intro SetCellValue_row_out_of_range) auto
  qed
qed

theorem SetCellValue_indexes_unchecked_row_witness:
  "\<exists>sheet. CreateSpreadSheet 3 3 = Inr sheet
     \<and> getCellRowCol ''A0'' = Inr (- 1, 0, None)
     \<and> SetCellValue [] sheet ''A0'' ''5'' = Inl IndexOutOfRange
     \<and> getCellRowCol ''A9'' = Inr (8, 0, None)
     \<and> SetCellValue [] sheet ''A9'' ''5'' = Inl IndexOutOfRange"
proof -
  have a0: "Atoi ''0'' = Some 0" and a9: "Atoi ''9'' = Some 9" by code_simp+
  have w: "wrap64 (- 1) = - 1" "wrap64 8 = 8" by (simp_all add: wrap64_def)
  obtain sheet where s: "CreateSpreadSheet 3 3 = Inr sheet" and l: "length (cells sheet) = 3"
    using fresh33 by simp
  from SetCellValue_indexes_unchecked_row [of "CHR ''A''" "''0''" 0 sheet "[]" "''5''"] a0 l w
  have "getCellRowCol ''A0'' = Inr (- 1, 0, None)"
    and "SetCellValue [] sheet ''A0'' ''5'' = Inl IndexOutOfRange" by simp_all
  moreover
  from SetCellValue_indexes_unchecked_row [of "CHR ''A''" "''9''" 9 sheet "[]" "''5''"] a9 l w
  have "getCellRowCol ''A9'' = Inr (8, 0, None)"
    and "SetCellValue [] sheet ''A9'' ''5'' = Inl IndexOutOfRange" by simp_all
  ultimately show ?thesis using s by blast
qed

text \<open>
  Claim C6. Replacing or clearing the formula of a cell should remove every edge the old
  formula created, so that a later change of B1 does not recompute A1. The dependents
  maps are keyed by the identifier as the caller spelled it, and \<^verbatim>\<open>getCellRowCol\<close>
  resolves \<^verbatim>\<open>A01\<close> to the cell of \<^verbatim>\<open>A1\<close>. On a new sheet of 3 rows and 3 columns, after
  \<^verbatim>\<open>SetCellValue("A01","=B1")\<close> and \<^verbatim>\<open>SetCellValue("A1","5")\<close> the key \<^verbatim>\<open>A01\<close> is still among
  the dependents of B1 (\<^verbatim>\<open>deleteDependees\<close> deleted the key \<^verbatim>\<open>A1\<close>) and A1 holds 5;
  \<^verbatim>\<open>SetCellValue("B1","7")\<close> then recomputes A1, a cell without formula, to 0.
\<close>

theorem deleteDependees_misses_other_spelling:
  "getCellRowCol ''A01'' = Inr (0, 0, None) \<and> getCellRowCol ''A1'' = Inr (0, 0, None)
   \<and> map_option (\<lambda>s. (cellAt s 0 1, GetCellValue s ''A1''))
       (session 3 3 [([], ''A01'', ''=B1''), ([], ''A1'', ''5'')])
     = Some (Inr \<lparr>dependentCells = {''A01''}, value = 0, formula = None\<rparr>, Inr (5, None))
   \<and> map_option (\<lambda>s. GetCellValue s ''A1'')
       (session 3 3 [([], ''A01'', ''=B1''), ([], ''A1'', ''5''), ([''A01''], ''B1'', ''7'')])
     = Some (Inr (0, None))"
  by code_simp

text \<open>
  Claim C7. \<^verbatim>\<open>GetCellValue\<close> should check the resolved position against the bounds of
  the sheet and return the value or an error. The code checks the upper bounds only:
  \<^verbatim>\<open>A0\<close> resolves to row \<open>- 1\<close> with no error and \<^verbatim>\<open>GetCellValue("A0")\<close> indexes the grid
  out of range; the empty identifier is indexed at its first byte.
\<close>

theorem GetCellValue_row_zero_panics:
  "getCellRowCol ''A0'' = Inr (- 1, 0, None)
   \<and> (case CreateSpreadSheet 3 3 of Inl a \<Rightarrow> Inl a | Inr s \<Rightarrow> GetCellValue s ''A0'')
     = Inl IndexOutOfRange
   \<and> (case CreateSpreadSheet 3 3 of Inl a \<Rightarrow> Inl a | Inr s \<Rightarrow> GetCellValue s '''')
     = Inl IndexOutOfRange"
  by code_simp



text \<open>
  Claim C9. Creating a sheet clamps the requested number of columns to 26 and fills the
  grid with cells of value 0, no formula and no dependents: for non-negative arguments
  whose number of rows \<^verbatim>\<open>make\<close> accepts (24 bytes a row, at most \<open>maxAlloc\<close> bytes),
  \<^verbatim>\<open>CreateSpreadSheet\<close> returns a sheet of \<open>numRows\<close> rows, every row of
  \<open>min numCols 26\<close> cells, and a position holds such a new cell when it lies inside
  these bounds and cannot be indexed otherwise.
\<close>

theorem CreateSpreadSheet_clamps:
  assumes "0 \<le> numRows" and "24 * numRows \<le> maxAlloc" and "0 \<le> numCols"
  shows "\<exists>sheet. CreateSpreadSheet numRows numCols = Inr sheet
           \<and> int (length (cells sheet)) = numRows
           \<and> (\<forall>r \<in> set (cells sheet). int (length r) = min numCols 26)
           \<and> (\<forall>r c. cellAt sheet r c =
                 (if 0 \<le> r \<and> r < numRows \<and> 0 \<le> c \<and> c < min numCols 26
                  then Inr \<lparr>dependentCells = {}, value = 0, formula = None\<rparr>
                  else Inl IndexOutOfRange))"
proof -
  let ?n = "nat (min numCols 26)"
  let ?s = "\<lparr>cells = newRows (nat numRows) ?n\<rparr>"
  have c: "CreateSpreadSheet numRows numCols = Inr ?s"
    using assms by (auto simp: CreateSpreadSheet_def Let_def min_def maxAlloc_def)
  have l: "int (length (cells ?s)) = numRows"
    using assms by (simp add: length_newRows)
  have w: "\<forall>r \<in> set (cells ?s). int (length r) = min numCols 26"
    using assms by (auto dest!: set_newRows simp: length_newRow)
  have a: "\<forall>r c. cellAt ?s r c =
                 (if 0 \<le> r \<and> r < numRows \<and> 0 \<le> c \<and> c < min numCols 26
                  then Inr \<lparr>dependentCells = {}, value = 0, formula = None\<rparr>
                  else Inl IndexOutOfRange)"
    using assms by (auto simp: cellAt_newRows newCell_def)
  from c l w a show ?thesis by blast
qed

theorem CreateSpreadSheet_clamps_witness:
  "\<exists>sheet. CreateSpreadSheet 3 30 = Inr sheet
     \<and> length (cells sheet) = 3
     \<and> list_all (\<lambda>r. length r = 26) (cells sheet)
     \<and> cellAt sheet 2 25 = Inr \<lparr>dependentCells = {}, value = 0, formula = None\<rparr>
     \<and> cellAt sheet 2 26 = Inl IndexOutOfRange"
proof -
  have "(0::int) \<le> 3" and "24 * (3::int) \<le> maxAlloc" and "(0::int) \<le> 30"
    by (simp_all add: maxAlloc_def)
  from CreateSpreadSheet_clamps [OF this]
  obtain sheet where s: "CreateSpreadSheet 3 30 = Inr sheet"
    and l: "int (length (cells sheet)) = 3"
    and w: "\<forall>r \<in> set (cells sheet). int (length r) = min 30 26"
    and a: "\<forall>r c. cellAt sheet r c =
                 (if 0 \<le> r \<and> r < 3 \<and> 0 \<le> c \<and> c < min 30 26
                  then Inr \<lparr>dependentCells = {}, value = 0, formula = None\<rparr>
                  else Inl IndexOutOfRange)"
    by auto
  from l have "length (cells sheet) = 3" by simp
  moreover from w have "list_all (\<lambda>r. length r = 26) (cells sheet)"
    by (auto simp: list_all_iff)
  moreover from a have "cellAt sheet 2 25 = Inr \<lparr>dependentCells = {}, value = 0, formula = None\<rparr>"
    by simp
  moreover from a have "cellAt sheet 2 26 = Inl IndexOutOfRange" by simp
  ultimately show ?thesis using s by blast
qed

text \<open>
  Claim C10. Storing an integer in a cell and reading the cell at once should return
  the integer. On a new sheet of 3 rows and 3 columns, \<^verbatim>\<open>SetCellValue("A01","=5")\<close> puts
  the key \<^verbatim>\<open>A01\<close> among the dependents of A1 itself (the literal term carries row 0 and
  column 0); \<^verbatim>\<open>SetCellValue("A1","7")\<close> then deletes the key \<^verbatim>\<open>A1\<close>, stores 7, and its loop
  recomputes \<^verbatim>\<open>A01\<close>, the same cell, now without formula, to 0: \<^verbatim>\<open>GetCellValue("A1")\<close>
  returns 0. The same happens with the spellings exchanged.
\<close>

theorem SetCellValue_literal_overwritten:
  "Atoi ''7'' = Some 7
   \<and> getCellRowCol ''A1'' = Inr (0, 0, None) \<and> getCellRowCol ''A01'' = Inr (0, 0, None)
   \<and> map_option (\<lambda>s. (cellAt s 0 0, GetCellValue s ''A1''))
       (session 3 3 [([''A01''], ''A01'', ''=5''), ([''A01''], ''A1'', ''7'')])
     = Some (Inr \<lparr>dependentCells = {''A01''}, value = 0, formula = None\<rparr>, Inr (0, None))
   \<and> map_option (\<lambda>s. (cellAt s 0 0, GetCellValue s ''A01''))
       (session 3 3 [([''A1''], ''A1'', ''=5''), ([''A1''], ''A01'', ''7'')])
     = Some (Inr \<lparr>dependentCells = {''A1''}, value = 0, formula = None\<rparr>, Inr (0, None))"
  by code_simp

section \<open>Canonical identifiers\<close>

text \<open>
  When every call spells its cell with a canonical identifier, the edges of a formula
  are deleted with the key they were added with. On a reachable sheet, for a call of
  \<^verbatim>\<open>SetCellValue\<close> on \<open>cid\<close> that returns \<^verbatim>\<open>nil\<close>: (1) when the cell held a formula,
  \<^verbatim>\<open>deleteDependees\<close>, the step the call runs first, succeeds and leaves \<open>cid\<close> among the
  dependents of no cell; (2) after the call \<open>cid\<close> is among the dependents of a cell only
  when a term of the formula now stored points to that cell; (3) when the cell now holds
  a literal, a later successful call on any other cell does not recompute it (no key of
  that call's loop resolves to it) and its value stays.
\<close>

theorem SetCellValue_removes_old_edges:
  assumes re: "reachable s" and can: "canonicalId cid" and g: "getCellRowCol cid = Inr (r, c, None)"
    and ro: "rangeOrder order s cid v" and S: "SetCellValue order s cid v = Inr (None, s')"
  shows "(\<forall>x f. cellAt s r c = Inr x \<and> formula x = Some f \<longrightarrow>
            (\<exists>s1. deleteDependees s cid f = Inr s1
                  \<and> (\<forall>r' c' u. cellAt s1 r' c' = Inr u \<longrightarrow> cid \<notin> dependentCells u)))
       \<and> (\<forall>r' c' u. cellAt s' r' c' = Inr u \<and> cid \<in> dependentCells u \<longrightarrow>
            (\<exists>y. cellAt s' r c = Inr y \<and> (r', c') \<in> edges (formula y)))
       \<and> (\<forall>y. cellAt s' r c = Inr y \<and> formula y = None \<longrightarrow>
            (\<forall>cid2 v2 order2 s''.
               canonicalId cid2 \<and> cid2 \<noteq> cid \<and> rangeOrder order2 s' cid2 v2
               \<and> SetCellValue order2 s' cid2 v2 = Inr (None, s'') \<longrightarrow>
               (\<forall>k \<in> set order2. getCellRowCol k \<noteq> Inr (r, c, None))
               \<and> (\<exists>y''. cellAt s'' r c = Inr y'' \<and> value y'' = value y \<and> formula y'' = None)))"
proof (intro conjI allI impI)
  from reachable_wellFormed [OF re] have wf: "wellFormed s" .
  have re': "reachable s'" using re can ro S by (rule reachable.set)
  from reachable_wellFormed [OF re'] have wf': "wellFormed s'" .
  from SetCellValue_effect [OF S g refl refl] obtain x0 s2 E F L where
    x0: "cellAt s r c = Inr x0" and R: "related (installed cid r c (edges (formula x0)) E F L) s s2"
    and U: "related (untouched order) s2 s'"
    by blast
  from related_fwd [OF R x0] obtain x2 where "cellAt s2 r c = Inr x2" by blast
  from related_fwd [OF U this] obtain y0 where y0: "cellAt s' r c = Inr y0" by blast
  show "\<exists>s1. deleteDependees s cid f = Inr s1
          \<and> (\<forall>r' c' u. cellAt s1 r' c' = Inr u \<longrightarrow> cid \<notin> dependentCells u)"
    if "cellAt s r c = Inr x \<and> formula x = Some f" for x f
    using deleteDependees_strips [OF wf g] that by blast
  show "\<exists>y. cellAt s' r c = Inr y \<and> (r', c') \<in> edges (formula y)"
    if "cellAt s' r' c' = Inr u \<and> cid \<in> dependentCells u" for r' c' u
    using wellFormed_no_literal_key [OF wf' g y0] that y0 by blast
  show "\<forall>k \<in> set order2. getCellRowCol k \<noteq> Inr (r, c, None)"
    if "cellAt s' r c = Inr y \<and> formula y = None"
      and "canonicalId cid2 \<and> cid2 \<noteq> cid \<and> rangeOrder order2 s' cid2 v2
           \<and> SetCellValue order2 s' cid2 v2 = Inr (None, s'')"
    for y cid2 v2 order2 s''
  proof -
    from that have a: "cellAt s' r c = Inr y" "formula y = None" "canonicalId cid2" "cid2 \<noteq> cid"
      "rangeOrder order2 s' cid2 v2" "SetCellValue order2 s' cid2 v2 = Inr (None, s'')"
      by simp_all
    from literal_cell_kept [OF wf' can g a] show ?thesis by (rule conjunct1)
  qed
  show "\<exists>y''. cellAt s'' r c = Inr y'' \<and> value y'' = value y \<and> formula y'' = None"
    if "cellAt s' r c = Inr y \<and> formula y = None"
      and "canonicalId cid2 \<and> cid2 \<noteq> cid \<and> rangeOrder order2 s' cid2 v2
           \<and> SetCellValue order2 s' cid2 v2 = Inr (None, s'')"
    for y cid2 v2 order2 s''
  proof -
    from that have a: "cellAt s' r c = Inr y" "formula y = None" "canonicalId cid2" "cid2 \<noteq> cid"
      "rangeOrder order2 s' cid2 v2" "SetCellValue order2 s' cid2 v2 = Inr (None, s'')"
      by simp_all
    from literal_cell_kept [OF wf' can g a] show ?thesis by (rule conjunct2)
  qed
qed

theorem SetCellValue_removes_old_edges_witness:
  "\<exists>s0 s1 sd u s2 s3. CreateSpreadSheet 3 3 = Inr s0
     \<and> SetCellValue [] s0 ''A1'' ''=B1'' = Inr (None, s1)
     \<and> cellAt s1 0 0 = Inr \<lparr>dependentCells = {}, value = 0, formula = Some ''=B1''\<rparr>
     \<and> cellAt s1 0 1 = Inr \<lparr>dependentCells = {''A1''}, value = 0, formula = None\<rparr>
     \<and> deleteDependees s1 ''A1'' ''=B1'' = Inr sd
     \<and> cellAt sd 0 1 = Inr u \<and> ''A1'' \<notin> dependentCells u
     \<and> rangeOrder [] s1 ''A1'' ''5''
     \<and> SetCellValue [] s1 ''A1'' ''5'' = Inr (None, s2)
     \<and> cellAt s2 0 1 = Inr \<lparr>dependentCells = {}, value = 0, formula = None\<rparr>
     \<and> cellAt s2 0 0 = Inr \<lparr>dependentCells = {}, value = 5, formula = None\<rparr>
     \<and> rangeOrder [] s2 ''B1'' ''7''
     \<and> SetCellValue [] s2 ''B1'' ''7'' = Inr (None, s3)
     \<and> (\<exists>y. cellAt s3 0 0 = Inr y \<and> value y = 5 \<and> formula y = None)"
proof -
  define s0 where "s0 = \<lparr>cells = [[newCell, newCell, newCell], [newCell, newCell, newCell], [newCell, newCell, newCell]]\<rparr>"
  define s1 where "s1 = (case SetCellValue [] s0 ''A1'' ''=B1'' of Inr (e, s) \<Rightarrow> s | Inl a \<Rightarrow> s0)"
  define s2 where "s2 = (case SetCellValue [] s1 ''A1'' ''5'' of Inr (e, s) \<Rightarrow> s | Inl a \<Rightarrow> s0)"
  define s3 where "s3 = (case SetCellValue [] s2 ''B1'' ''7'' of Inr (e, s) \<Rightarrow> s | Inl a \<Rightarrow> s0)"
  have c: "CreateSpreadSheet 3 3 = Inr s0" unfolding s0_def by (rule fresh33)
  have S1: "SetCellValue [] s0 ''A1'' ''=B1'' = Inr (None, s1)" unfolding s1_def s0_def by code_simp
  have r1: "rangeOrder [] s0 ''A1'' ''=B1''" unfolding s0_def by code_simp
  have a1: "cellAt s1 0 0 = Inr \<lparr>dependentCells = {}, value = 0, formula = Some ''=B1''\<rparr>"
    unfolding s1_def s0_def by code_simp
  have b1: "cellAt s1 0 1 = Inr \<lparr>dependentCells = {''A1''}, value = 0, formula = None\<rparr>"
    unfolding s1_def s0_def by code_simp
  have S2: "SetCellValue [] s1 ''A1'' ''5'' = Inr (None, s2)" unfolding s2_def s1_def s0_def by code_simp
  have r2: "rangeOrder [] s1 ''A1'' ''5''" unfolding s1_def s0_def by code_simp
  have b2: "cellAt s2 0 1 = Inr \<lparr>dependentCells = {}, value = 0, formula = None\<rparr>"
    unfolding s2_def s1_def s0_def by code_simp
  have a2: "cellAt s2 0 0 = Inr \<lparr>dependentCells = {}, value = 5, formula = None\<rparr>"
    unfolding s2_def s1_def s0_def by code_simp
  have S3: "SetCellValue [] s2 ''B1'' ''7'' = Inr (None, s3)"
    unfolding s3_def s2_def s1_def s0_def by code_simp
  have r3: "rangeOrder [] s2 ''B1'' ''7''" unfolding s2_def s1_def s0_def by code_simp
  have canA: "canonicalId ''A1''" and canB: "canonicalId ''B1''" by code_simp+
  have g: "getCellRowCol ''A1'' = Inr (0, 0, None)" by code_simp
  have re1: "reachable s1"
    by (rule reachable.set [OF reachable.new [OF c] canA r1 S1])
  note T = SetCellValue_removes_old_edges [OF re1 canA g r2 S2]
  from T a1 obtain sd where d: "deleteDependees s1 ''A1'' ''=B1'' = Inr sd"
    and n: "\<forall>r' c' u. cellAt sd r' c' = Inr u \<longrightarrow> ''A1'' \<notin> dependentCells u"
    by fastforce
  from d have "related (\<lambda>r' c' u u'. u' = (if (r', c') \<in> positions [\<lparr>row = 0, col = 1, sign = ''+'', val = None\<rparr>]
                      then u\<lparr>dependentCells := dependentCells u - {''A1''}\<rparr> else u)) s1 sd"
    using deleteLoop_related [of "''A1''" "[\<lparr>row = 0, col = 1, sign = ''+'', val = None\<rparr>]" s1 sd]
    by (simp add: deleteDependees_def parse_facts)
  from related_fwd [OF this b1] obtain u where u: "cellAt sd 0 1 = Inr u" by blast
  with n have nu: "''A1'' \<notin> dependentCells u" by blast
  from T a2 canB r3 S3
  have "\<exists>y. cellAt s3 0 0 = Inr y \<and> value y = 5 \<and> formula y = None"
    by fastforce
  with c S1 a1 b1 d u nu r2 S2 b2 a2 r3 S3 show ?thesis by blast
qed

text \<open>
  On a reachable sheet, for a canonical identifier of a cell inside the grid and a
  string that \<^verbatim>\<open>strconv.Atoi\<close> reads as \<open>n\<close>, \<^verbatim>\<open>SetCellValue\<close> returns \<^verbatim>\<open>nil\<close>, the cell
  then holds the value \<open>n\<close> and no formula, and \<^verbatim>\<open>GetCellValue\<close> on the same identifier
  returns \<open>n\<close>, whatever order the loop over the dependents takes.
\<close>

theorem SetCellValue_literal_round_trip:
  assumes re: "reachable s" and can: "canonicalId cid" and g: "getCellRowCol cid = Inr (r, c, None)"
    and ig: "inGrid s r c" and a: "Atoi v = Some n" and ro: "rangeOrder order s cid v"
  shows "\<exists>s' x'. SetCellValue order s cid v = Inr (None, s')
           \<and> cellAt s' r c = Inr x' \<and> value x' = n \<and> formula x' = None
           \<and> GetCellValue s' cid = Inr (n, None)"
proof -
  from reachable_wellFormed [OF re] have wf: "wellFormed s" .
  from wf have W0: "rectangular s"
    and W1: "\<And>r c x. cellAt s r c = Inr x \<Longrightarrow>
               parses (formula x) \<and> (\<forall>p \<in> edges (formula x). inGrid s (fst p) (snd p))"
    and W2: "\<And>r c x k. cellAt s r c = Inr x \<Longrightarrow> k \<in> dependentCells x \<Longrightarrow>
               canonicalId k \<and> (\<exists>rk ck y. getCellRowCol k = Inr (rk, ck, None)
                  \<and> cellAt s rk ck = Inr y \<and> (r, c) \<in> edges (formula y))"
    by (auto simp: wellFormed_def)
  from inGrid_cellAt [OF ig] obtain x where x: "cellAt s r c = Inr x" by blast
  from install_literal_ok [OF wf g x a] obtain s2 where i: "install s cid v = Inr (None, s2)" by blast
  from Atoi_not_allSpace [OF a] have ns: "\<not> allSpace v" .
  have v': "v = (if allSpace v then ''0'' else v)" using ns by simp
  have nf: "None = (case Atoi v of Some n \<Rightarrow> None | None \<Rightarrow> Some v)" using a by simp
  from install_effect [OF i g v' nf] x a
  have R: "related (installed cid r c (edges (formula x)) {} None (Some n)) s s2" by simp
  from related_fwd [OF R x] obtain y where y: "cellAt s2 r c = Inr y"
    and dy: "dependentCells y = (if (r, c) \<in> edges (formula x) then dependentCells x - {cid}
                                 else dependentCells x)"
    and fy: "formula y = None" and vy: "value y = n"
    by (auto simp: installed_def)
  from ro i g y have keys: "set order = dependentCells y"
    by (simp add: rangeOrder_def loopKeys_def)
  have key: "computable s2 k \<and> getCellRowCol k \<noteq> Inr (r, c, None)" if k: "k \<in> set order" for k
  proof -
    from k keys dy have kx: "k \<in> dependentCells x" by (auto split: if_splits)
    from W2 [OF x kx] obtain rk ck yk where ck: "canonicalId k"
      and gk: "getCellRowCol k = Inr (rk, ck, None)" and yk: "cellAt s rk ck = Inr yk"
      and e: "(r, c) \<in> edges (formula yk)" by blast
    have ne: "\<not> (rk = r \<and> ck = c)"
    proof
      assume same: "rk = r \<and> ck = c"
      with gk g have "getCellRowCol k = getCellRowCol cid" by simp
      from canonicalId_inj [OF ck can this] have "k = cid" .
      moreover from same yk x e have "(r, c) \<in> edges (formula x)" by simp
      ultimately show False using k keys dy by simp
    qed
    from related_fwd [OF R yk] ne obtain yk' where yk': "cellAt s2 rk ck = Inr yk'"
      and f: "formula yk' = formula yk" by (auto simp: installed_def)
    from W1 [OF yk] f have "parses (formula yk') \<and> (\<forall>p \<in> edges (formula yk'). inGrid s2 (fst p) (snd p))"
      by (simp add: related_inGrid [OF R])
    with gk yk' have "computable s2 k" by (auto simp: computable_def)
    with gk ne show ?thesis by auto
  qed
  then have "\<And>k. k \<in> set order \<Longrightarrow> computable s2 k" by simp
  from recompute_ok [OF this] obtain s' where rc: "recompute order s2 = Inr s'" by blast
  from related_fwd [OF recompute_related [OF rc] y] key
  have y': "cellAt s' r c = Inr y" by (auto simp: untouched_def)
  from i rc have S: "SetCellValue order s cid v = Inr (None, s')" by (simp add: SetCellValue_def)
  have "rectangular s'"
    using W0 rectangular_related [OF R] rectangular_related [OF recompute_related [OF rc]] by simp
  from GetCellValue_inGrid [OF this g y'] vy have "GetCellValue s' cid = Inr (n, None)" by simp
  with S y' vy fy show ?thesis by blast
qed

theorem SetCellValue_literal_round_trip_witness:
  "\<exists>s s'. CreateSpreadSheet 3 3 = Inr s \<and> reachable s \<and> canonicalId ''A1''
     \<and> getCellRowCol ''A1'' = Inr (0, 0, None) \<and> inGrid s 0 0 \<and> Atoi ''10'' = Some 10
     \<and> rangeOrder [] s ''A1'' ''10''
     \<and> SetCellValue [] s ''A1'' ''10'' = Inr (None, s') \<and> GetCellValue s' ''A1'' = Inr (10, None)"
proof -
  define s where "s = \<lparr>cells = [[newCell, newCell, newCell], [newCell, newCell, newCell], [newCell, newCell, newCell]]\<rparr>"
  have c: "CreateSpreadSheet 3 3 = Inr s" unfolding s_def by (rule fresh33)
  have re: "reachable s" using c by (rule reachable.new)
  have can: "canonicalId ''A1''" by code_simp
  have g: "getCellRowCol ''A1'' = Inr (0, 0, None)" by code_simp
  have ig: "inGrid s 0 0" unfolding s_def by (simp add: inGrid_def)
  have a: "Atoi ''10'' = Some 10" by code_simp
  have ro: "rangeOrder [] s ''A1'' ''10''" unfolding s_def by code_simp
  from SetCellValue_literal_round_trip [OF re can g ig a ro] c re can g ig a ro
  show ?thesis by blast
qed

end
